theory Spec2Isabelle
  imports Main "HOL-Library.Word"
begin

section \<open>JavaScript strings and values\<close>

text \<open>
  A JavaScript string is a sequence of 16-bit code units; \<open>charCodeAt\<close>, the regular
  expressions of the source (none carries the \<open>u\<close> flag) and \<open>String.fromCharCode\<close>
  all work on code units. \<open>js\<close> turns an ASCII literal into such a string.
\<close>

type_synonym jschar = "16 word"
type_synonym jsstring = "jschar list"

definition js :: "string \<Rightarrow> jsstring" where
  "js s = map (\<lambda>c. of_nat (of_char c)) s"

lemma length_js [simp]: "length (js s) = length s"
  by (simp add: js_def)

lemma js_Nil [simp]: "js [] = []"
  by (simp add: js_def)

lemma js_eq_Nil [simp]: "js s = [] \<longleftrightarrow> s = []"
  by (simp add: js_def)

text \<open>
  The values the program handles: \<open>undefined\<close>, \<open>null\<close>, strings, arrays and plain
  objects, and the two kinds of values that a plain object inherits from
  \<open>Object.prototype\<close>: \<open>Fun n\<close> is the built-in function named \<open>n\<close>, and
  \<open>ObjectPrototype\<close> is the object \<open>Object.prototype\<close> itself. An object is the list
  of its own enumerable properties in enumeration order; the names this program creates
  (tag names, attribute names, qualified names and the \<open>$\<close>-prefixed special names) are
  never array indices, so enumeration order is insertion order. The prototype of an
  \<open>Obj\<close> is \<open>Object.prototype\<close>.
\<close>

datatype jsval =
    Undefined
  | Null
  | Str jsstring
  | Arr "jsval list"
  | Obj "(jsstring \<times> jsval) list"
  | Fun jsstring
  | ObjectPrototype

type_synonym props = "(jsstring \<times> jsval) list"

text \<open>\<open>o[k]\<close> and \<open>o[k] = v\<close> on the own properties. These are used where the name
  is one of \<open>$\<close>, \<open>$value\<close>, \<open>$cdata\<close> and the empty name, which
  \<open>Object.prototype\<close> does not have, and where the object holds the name itself: a
  key that has just been enumerated, the tag under which \<open>push\<close> has put an element.\<close>

definition getProp :: "props \<Rightarrow> jsstring \<Rightarrow> jsval" where
  "getProp kvs k = (case map_of kvs k of None \<Rightarrow> Undefined | Some v \<Rightarrow> v)"

fun setProp :: "props \<Rightarrow> jsstring \<Rightarrow> jsval \<Rightarrow> props" where
  "setProp [] k v = [(k, v)]"
| "setProp ((k', v') # kvs) k v =
     (if k' = k then (k, v) # kvs else (k', v') # setProp kvs k v)"

lemma getProp_setProp: "getProp (setProp kvs k v) q = (if k = q then v else getProp kvs q)"
  by (induction kvs) (auto simp: getProp_def)

text \<open>
  The properties of \<open>Object.prototype\<close>, as Node.js has them: eleven functions, of
  which \<open>constructor\<close> is the function \<open>Object\<close> and the others are named as the
  property, and the accessor \<open>__proto__\<close>, which reads as the prototype of the object,
  \<open>Object.prototype\<close> for a plain object. None of them is enumerable.
\<close>

definition objectPrototypeNames :: "jsstring list" where
  "objectPrototypeNames = map js
     [''constructor'', ''hasOwnProperty'', ''isPrototypeOf'', ''propertyIsEnumerable'',
      ''toLocaleString'', ''toString'', ''valueOf'', ''__proto__'', ''__defineGetter__'',
      ''__defineSetter__'', ''__lookupGetter__'', ''__lookupSetter__'']"

definition inherited :: "jsstring \<Rightarrow> jsval" where
  "inherited k =
     (if k = js ''constructor'' then Fun (js ''Object'')
      else if k = js ''__proto__'' then ObjectPrototype
      else if k \<in> set objectPrototypeNames then Fun k
      else Undefined)"

text \<open>
  \<open>o[k]\<close> for a name \<open>k\<close> that the input chooses, on a plain object with the own
  properties \<open>kvs\<close>: the own property, or else the property of \<open>Object.prototype\<close>.
\<close>

definition getP :: "props \<Rightarrow> jsstring \<Rightarrow> jsval" where
  "getP kvs k = (case map_of kvs k of None \<Rightarrow> inherited k | Some v \<Rightarrow> v)"

text \<open>
  \<open>o[k] = v\<close> for such a name. The functions of \<open>Object.prototype\<close> are writable data
  properties: the assignment creates an own property that shadows them. \<open>__proto__\<close>
  is an accessor: unless the object has an own property of that name, the assignment
  calls its setter, which replaces the prototype of the object when \<open>v\<close> is an object
  or \<open>null\<close> and does nothing otherwise. An object with another prototype has no
  counterpart among the values above: \<open>putP\<close> returns \<open>None\<close> and the model of the
  call stops there.
\<close>

definition isObject :: "jsval \<Rightarrow> bool" where
  "isObject v = (case v of Arr xs \<Rightarrow> True | Obj kvs \<Rightarrow> True | Fun n \<Rightarrow> True
                 | ObjectPrototype \<Rightarrow> True | _ \<Rightarrow> False)"

definition putP :: "props \<Rightarrow> jsstring \<Rightarrow> jsval \<Rightarrow> props option" where
  "putP kvs k v =
     (if k = js ''__proto__'' \<and> map_of kvs k = None
      then (if isObject v \<or> v = Null then None else Some kvs)
      else Some (setProp kvs k v))"

lemma names_in_list:
  "js ''constructor'' \<in> set objectPrototypeNames" "js ''__proto__'' \<in> set objectPrototypeNames"
  by (simp_all add: objectPrototypeNames_def)

lemma inherited_none: "k \<notin> set objectPrototypeNames \<Longrightarrow> inherited k = Undefined"
  using names_in_list by (auto simp: inherited_def)

lemma getP_own: "inherited k = Undefined \<Longrightarrow> getP kvs k = getProp kvs k"
  by (simp add: getP_def getProp_def split: option.splits)

lemma putP_own: "inherited k = Undefined \<Longrightarrow> putP kvs k v = Some (setProp kvs k v)"
  by (auto simp: putP_def inherited_def split: if_splits)

text \<open>\<open>v != null\<close> (false for \<open>null\<close> and \<open>undefined\<close>) and the truthiness of a value.\<close>

fun notNull :: "jsval \<Rightarrow> bool" where
  "notNull Undefined = False"
| "notNull Null = False"
| "notNull _ = True"

fun truthy :: "jsval \<Rightarrow> bool" where
  "truthy Undefined = False"
| "truthy Null = False"
| "truthy (Str s) = (s \<noteq> [])"
| "truthy _ = True"

fun isArray :: "jsval \<Rightarrow> bool" where
  "isArray (Arr _) = True"
| "isArray _ = False"

text \<open>
  \<open>'' + val\<close>: a string is itself; an array is its elements joined by commas, where
  \<open>null\<close> and \<open>undefined\<close> elements give the empty string; a plain object, and
  \<open>Object.prototype\<close>, gives \<open>[object Object]\<close>; a built-in function gives its
  source text, which Node.js prints as \<open>function name() { [native code] }\<close>.
  The conversion of an object goes through its \<open>valueOf\<close> and \<open>toString\<close>:
  \<open>toStr\<close> is the conversion with the inherited ones, and \<open>plainText\<close> holds for
  the values that are converted with them, those in which no object holds a property
  \<open>toString\<close> or \<open>valueOf\<close> of its own.
\<close>

fun joinComma :: "jsstring list \<Rightarrow> jsstring" where
  "joinComma [] = []"
| "joinComma [s] = s"
| "joinComma (s # t # ss) = s @ js '','' @ joinComma (t # ss)"

fun toStr :: "jsval \<Rightarrow> jsstring" where
  "toStr Undefined = js ''undefined''"
| "toStr Null = js ''null''"
| "toStr (Str s) = s"
| "toStr (Arr xs) = joinComma (map (\<lambda>x. if notNull x then toStr x else []) xs)"
| "toStr (Obj kvs) = js ''[object Object]''"
| "toStr (Fun n) = js ''function '' @ n @ js ''() { [native code] }''"
| "toStr ObjectPrototype = js ''[object Object]''"

fun plainText :: "jsval \<Rightarrow> bool" where
  "plainText (Obj kvs) =
     (js ''toString'' \<notin> set (map fst kvs) \<and> js ''valueOf'' \<notin> set (map fst kvs))"
| "plainText (Arr xs) = (\<forall>x \<in> set xs. plainText x)"
| "plainText _ = True"

text \<open>The conversion where the model follows it: \<open>None\<close> for a value that is
  converted by a \<open>toString\<close> or \<open>valueOf\<close> of its own.\<close>

definition toText :: "jsval \<Rightarrow> jsstring option" where
  "toText v = (if plainText v then Some (toStr v) else None)"

subsection \<open>String primitives\<close>

text \<open>\<open>str.charCodeAt(i)\<close>: \<open>None\<close> stands for \<open>NaN\<close>, the result out of range.\<close>

definition charCodeAt :: "jsstring \<Rightarrow> nat \<Rightarrow> jschar option" where
  "charCodeAt s i = (if i < length s then Some (s ! i) else None)"

text \<open>\<open>str.substring(a, b)\<close> on non-negative arguments: the bounds are swapped when
  \<open>a > b\<close> and clamped to the length.\<close>

definition substring :: "jsstring \<Rightarrow> nat \<Rightarrow> nat \<Rightarrow> jsstring" where
  "substring s a b = take (max a b - min a b) (drop (min a b) s)"

text \<open>\<open>str.indexOf(needle, from)\<close> for a non-empty needle: \<open>None\<close> stands for \<open>-1\<close>.\<close>

fun findSub :: "jsstring \<Rightarrow> jsstring \<Rightarrow> nat option" where
  "findSub needle [] = (if needle = [] then Some 0 else None)"
| "findSub needle (c # cs) =
     (if take (length needle) (c # cs) = needle then Some 0
      else map_option Suc (findSub needle cs))"

definition indexOf :: "jsstring \<Rightarrow> jsstring \<Rightarrow> nat \<Rightarrow> nat option" where
  "indexOf needle s from = map_option (\<lambda>k. min from (length s) + k) (findSub needle (drop from s))"

subsection \<open>Character tables\<close>

definition LF :: jschar where "LF = 0x0A"
definition LT :: jschar where "LT = 0x3C"
definition GT :: jschar where "GT = 0x3E"
definition EXCLAM :: jschar where "EXCLAM = 0x21"
definition QMARK :: jschar where "QMARK = 0x3F"
definition SLASH :: jschar where "SLASH = 0x2F"
definition OBRA :: jschar where "OBRA = 0x5B"
definition EQ :: jschar where "EQ = 0x3D"
definition DASH :: jschar where "DASH = 0x2D"

text \<open>
  The tables \<open>begWord\<close>, \<open>inWord\<close> and \<open>space\<close> are filled once, at load time:
  the 26 letters from \<open>a\<close> and from \<open>A\<close>, the colon and the underscore start a
  name; the ten digits from \<open>0\<close>, the dash and the dot may follow. A table is read
  with a char code or with \<open>NaN\<close>, which no table holds.
\<close>

definition isLetter :: "jschar \<Rightarrow> bool" where
  "isLetter c = ((0x61 \<le> c \<and> c \<le> 0x7A) \<or> (0x41 \<le> c \<and> c \<le> 0x5A))"

definition begWord :: "jschar option \<Rightarrow> bool" where
  "begWord ch = (case ch of None \<Rightarrow> False
     | Some c \<Rightarrow> isLetter c \<or> c = 0x3A \<or> c = 0x5F)"

definition inWord :: "jschar option \<Rightarrow> bool" where
  "inWord ch = (case ch of None \<Rightarrow> False
     | Some c \<Rightarrow> (0x30 \<le> c \<and> c \<le> 0x39) \<or> isLetter c
          \<or> c = 0x3A \<or> c = 0x5F \<or> c = 0x2D \<or> c = 0x2E)"

definition space :: "jschar option \<Rightarrow> bool" where
  "space ch = (case ch of None \<Rightarrow> False
     | Some c \<Rightarrow> c = 0x20 \<or> c = 0x09 \<or> c = 0x0D \<or> c = 0x0A)"

definition entitiesByChar :: "(jschar \<times> jsstring) list" where
  "entitiesByChar =
     [(0x26, js ''amp''), (0x3C, js ''lt''), (0x3E, js ''gt''),
      (0x22, js ''quot''), (0x27, js ''apos'')]"

definition entitiesByName :: "(jsstring \<times> jschar) list" where
  "entitiesByName = map (\<lambda>(ch, name). (name, ch)) entitiesByChar"

section \<open>Errors\<close>

text \<open>
  The parser throws \<open>error(msg)\<close>, an \<open>Error\<close> whose text is built from the message, the
  line number and an excerpt of the input at \<open>pos\<close>; the serializer throws
  \<open>new Error(msg)\<close>. An error value keeps the message, as a constructor with the
  parts the source concatenates into it; line number and excerpt are left out.

  \<open>PrototypeReplaced\<close> is no error of the program. It marks the one place where the
  model of the parser stops: \<open>builder.push\<close> with the tag \<open>__proto__\<close> assigns an
  array to \<open>elt.__proto__\<close>, which makes that array the prototype of the element, and
  parsing goes on with an element that is no plain object any more. \<open>OwnConversion\<close> is
  the same for the serializer: it marks the place where the source converts to a string a
  value that holds a \<open>toString\<close> or \<open>valueOf\<close> of its own.
\<close>

datatype parse_error =
    Expected jschar "jschar option"
  | ExpectedQuote "jschar option"
  | InvalidEntity jsstring
  | HexValueExpected jsstring
  | UnexpectedValue jsstring
  | DoubleQuoteMissing
  | TagNotClosed
  | UnterminatedComment
  | UnexpectedCharacter "jschar option"
  | CommentEndMissing
  | CDataEndMissing
  | InvalidSyntaxAfterExclam
  | PIEndMissing
  | CannotMixCDATAAndChildren
  | CannotMixValueAndChildren
  | CannotMixCDATAAndValue
  | CannotMixChildrenAndValue
  | CannotMixValueAndCDATA
  | CannotMixChildrenAndCDATA
  | ClosingTagMismatch "jsstring option" jsstring
  | TooManyClosingTags
  | DuplicateAttribute jsstring
  | TagNotClosedAtEnd "jsstring option"
  | RootTagNotFound
  | TooManyElementsAtTopLevel
  | PrototypeReplaced

datatype serialize_error =
    NotAnObject
  | BadRootElement nat
  | CannotMixValueAndChildrenS
  | CannotMixValueAndCdataS
  | CannotMixCdataAndChildrenS
  | OwnConversion

text \<open>Sequencing of steps that may throw.\<close>

definition bindE :: "'e + 'a \<Rightarrow> ('a \<Rightarrow> 'e + 'b) \<Rightarrow> 'e + 'b" where
  "bindE m f = (case m of Inl e \<Rightarrow> Inl e | Inr x \<Rightarrow> f x)"

lemma bindE_Inl [simp]: "bindE (Inl e) f = Inl e"
  by (simp add: bindE_def)

lemma bindE_Inr [simp]: "bindE (Inr x) f = f x"
  by (simp add: bindE_def)

lemma bindE_eq_Inr: "bindE m f = Inr y \<longleftrightarrow> (\<exists>x. m = Inr x \<and> f x = Inr y)"
  by (cases m) simp_all

lemma bindE_eq_Inl: "bindE m f = Inl e \<longleftrightarrow> m = Inl e \<or> (\<exists>x. m = Inr x \<and> f x = Inl e)"
  by (cases m) simp_all

section \<open>The tree builder\<close>

text \<open>
  An element under construction is an object with the transient fields \<open>$tag\<close>,
  \<open>$parent\<close>, \<open>$childCount\<close> and \<open>$index\<close> beside the properties that stay in the
  result (\<open>$\<close>, the children, \<open>$value\<close>, \<open>$cdata\<close>). The builder follows the
  \<open>$parent\<close> references from the current element \<open>elt\<close> to the root: the
  model keeps \<open>elt\<close> and the list of its ancestors, nearest first. The root is the
  element without \<open>$tag\<close> and without ancestors. While a child is open its parent holds
  a reference to it; the model leaves the child's place in the parent filled with an
  empty object and writes the finished child there when it is popped.

  Elements and their \<open>$\<close> objects are plain objects. \<open>push\<close> tests
  \<open>elt[tag] != null\<close> and \<open>attribute\<close> tests \<open>elt.$[atb] != null\<close> for names of
  the input, so that a name of \<open>Object.prototype\<close> counts as present before it has
  occurred: \<open>push\<close> wraps the inherited function into an array, and \<open>attribute\<close>
  throws. After its test, \<open>attribute\<close> assigns under a name that the object neither
  holds nor inherits, which creates the own property.
\<close>

record element =
  elt_tag :: "jsstring option"
  elt_index :: "nat option"
  elt_childCount :: nat
  elt_props :: props

record builder =
  elt :: element
  ancestors :: "element list"

definition newElement :: "jsstring option \<Rightarrow> element" where
  "newElement tg = \<lparr>elt_tag = tg, elt_index = None, elt_childCount = 0, elt_props = []\<rparr>"

definition builder :: builder where
  "builder = \<lparr>elt = newElement None, ancestors = []\<rparr>"

definition push :: "jsstring \<Rightarrow> builder \<Rightarrow> parse_error + builder" where
  "push tg b =
     (let e = elt b in
      if notNull (getProp (elt_props e) (js ''$cdata'')) then Inl CannotMixCDATAAndChildren
      else if notNull (getProp (elt_props e) (js ''$value'')) then Inl CannotMixValueAndChildren
      else
        let e1 = e\<lparr>elt_childCount := elt_childCount e + 1\<rparr>;
            child = newElement (Some tg);
            old = getP (elt_props e1) tg
        in if notNull old then
             let items = (case old of Arr xs \<Rightarrow> xs | _ \<Rightarrow> [old]);
                 child1 = child\<lparr>elt_index := Some (length items)\<rparr>
             in (case putP (elt_props e1) tg (Arr (items @ [Obj []])) of
                   None \<Rightarrow> Inl PrototypeReplaced
                 | Some ps \<Rightarrow>
                     Inr \<lparr>elt = child1, ancestors = e1\<lparr>elt_props := ps\<rparr> # ancestors b\<rparr>)
           else
             (case putP (elt_props e1) tg (Obj []) of
                None \<Rightarrow> Inl PrototypeReplaced
              | Some ps \<Rightarrow>
                  Inr \<lparr>elt = child, ancestors = e1\<lparr>elt_props := ps\<rparr> # ancestors b\<rparr>))"

text \<open>\<open>a[i] = v\<close> on an array: a write past the end extends it.\<close>

definition arraySet :: "jsval list \<Rightarrow> nat \<Rightarrow> jsval \<Rightarrow> jsval list" where
  "arraySet xs i v =
     (if i < length xs then xs[i := v]
      else xs @ replicate (i - length xs) Undefined @ [v])"

text \<open>
  \<open>pop\<close> puts the finished element at its place in the parent: its \<open>$value\<close> when it
  has one and no attributes, the element itself (the transient fields deleted) otherwise.
  A popped element always has a \<open>$tag\<close>, and one with an \<open>$index\<close> sits in an array.
\<close>

definition pop :: "jsstring option \<Rightarrow> builder \<Rightarrow> parse_error + builder" where
  "pop tg b =
     (let e = elt b in
      case (case tg of None \<Rightarrow> None
                     | Some t \<Rightarrow> if t \<noteq> [] \<and> Some t \<noteq> elt_tag e then Some t else None) of
        Some t \<Rightarrow> Inl (ClosingTagMismatch (elt_tag e) t)
      | None \<Rightarrow> case ancestors b of
        [] \<Rightarrow> Inl TooManyClosingTags
      | parent # rest \<Rightarrow>
          let node = (if getProp (elt_props e) (js ''$value'') \<noteq> Undefined
                         \<and> \<not> truthy (getProp (elt_props e) (js ''$''))
                      then getProp (elt_props e) (js ''$value'')
                      else Obj (elt_props e));
              key = (case elt_tag e of None \<Rightarrow> js ''undefined'' | Some t \<Rightarrow> t);
              slot = (case elt_index e of
                        None \<Rightarrow> node
                      | Some i \<Rightarrow> (case getProp (elt_props parent) key of
                                     Arr xs \<Rightarrow> Arr (arraySet xs i node)
                                   | other \<Rightarrow> other))
          in Inr \<lparr>elt = parent\<lparr>elt_props := setProp (elt_props parent) key slot\<rparr>,
                   ancestors = rest\<rparr>)"

definition attribute :: "jsstring \<Rightarrow> jsstring \<Rightarrow> builder \<Rightarrow> parse_error + builder" where
  "attribute atb val b =
     (let e = elt b;
          atts = (case getProp (elt_props e) (js ''$'') of Obj kvs \<Rightarrow> kvs | _ \<Rightarrow> [])
      in if notNull (getP atts atb) then Inl (DuplicateAttribute atb)
         else Inr (b\<lparr>elt := e\<lparr>elt_props :=
                setProp (elt_props e) (js ''$'') (Obj (setProp atts atb (Str val)))\<rparr>\<rparr>))"

definition "value" :: "jsstring \<Rightarrow> builder \<Rightarrow> parse_error + builder" where
  "value val b =
     (let e = elt b in
      if notNull (getProp (elt_props e) (js ''$cdata'')) then Inl CannotMixCDATAAndValue
      else if elt_childCount e \<noteq> 0 then Inl CannotMixChildrenAndValue
      else Inr (b\<lparr>elt := e\<lparr>elt_props := setProp (elt_props e) (js ''$value'') (Str val)\<rparr>\<rparr>))"

definition cdata :: "jsstring \<Rightarrow> builder \<Rightarrow> parse_error + builder" where
  "cdata val b =
     (let e = elt b in
      if notNull (getProp (elt_props e) (js ''$value'')) then Inl CannotMixValueAndCDATA
      else if elt_childCount e \<noteq> 0 then Inl CannotMixChildrenAndCDATA
      else Inr (b\<lparr>elt := e\<lparr>elt_props := setProp (elt_props e) (js ''$cdata'') (Str val)\<rparr>\<rparr>))"

definition getResult :: "builder \<Rightarrow> parse_error + jsval" where
  "getResult b =
     (if ancestors b \<noteq> [] then Inl (TagNotClosedAtEnd (elt_tag (elt b)))
      else if elt_childCount (elt b) = 0 then Inl RootTagNotFound
      else if elt_childCount (elt b) \<noteq> 1 then Inl TooManyElementsAtTopLevel
      else Inr (Obj (elt_props (elt b))))"

section \<open>The scanner\<close>

subsection \<open>Entity decoding\<close>

text \<open>
  \<open>parseInt(string, radix)\<close> for the radix 10 or 16: leading white space is skipped,
  a sign is read, with radix 16 a prefix \<open>0x\<close> or \<open>0X\<close> is dropped, and the longest
  run of digits of the radix is the number; what follows the digits is ignored. No digit
  gives \<open>NaN\<close> (\<open>None\<close>). The result is a Number: an integer beyond 53 bits is
  rounded to the nearest double, ties to even.
\<close>

definition strWhiteSpace :: "jschar \<Rightarrow> bool" where
  "strWhiteSpace c =
     (c \<in> set [0x09, 0x0A, 0x0B, 0x0C, 0x0D, 0x20, 0xA0, 0x1680, 0x2028, 0x2029,
                0x202F, 0x205F, 0x3000, 0xFEFF]
      \<or> (0x2000 \<le> c \<and> c \<le> 0x200A))"

definition digitVal :: "jschar \<Rightarrow> nat option" where
  "digitVal c =
     (if 0x30 \<le> c \<and> c \<le> 0x39 then Some (unat c - 0x30)
      else if 0x61 \<le> c \<and> c \<le> 0x7A then Some (unat c - 0x61 + 10)
      else if 0x41 \<le> c \<and> c \<le> 0x5A then Some (unat c - 0x41 + 10)
      else None)"

definition isDigit :: "nat \<Rightarrow> jschar \<Rightarrow> bool" where
  "isDigit radix c = (case digitVal c of None \<Rightarrow> False | Some d \<Rightarrow> d < radix)"

definition digitsValue :: "nat \<Rightarrow> jsstring \<Rightarrow> nat" where
  "digitsValue radix Z = foldl (\<lambda>acc c. acc * radix + the (digitVal c)) 0 Z"

fun bitlen :: "nat \<Rightarrow> nat" where
  "bitlen n = (if n = 0 then 0 else Suc (bitlen (n div 2)))"

declare bitlen.simps [simp del]

definition roundDouble :: "nat \<Rightarrow> nat" where
  "roundDouble n =
     (let k = bitlen n - 53; q = n div 2 ^ k; r = n mod 2 ^ k
      in if 2 * r > 2 ^ k \<or> (2 * r = 2 ^ k \<and> odd q) then (q + 1) * 2 ^ k else q * 2 ^ k)"

definition parseInt :: "jsstring \<Rightarrow> nat \<Rightarrow> int option" where
  "parseInt string radix =
     (let S = dropWhile strWhiteSpace string;
          sign = (if take 1 S = js ''-'' then - 1 else 1 :: int);
          S = (if take 1 S = js ''+'' \<or> take 1 S = js ''-'' then drop 1 S else S);
          S = (if radix = 16 \<and> (take 2 S = js ''0x'' \<or> take 2 S = js ''0X'')
               then drop 2 S else S);
          Z = takeWhile (isDigit radix) S
      in if Z = [] then None
         else Some (sign * int (roundDouble (digitsValue radix Z))))"

text \<open>\<open>String.fromCharCode(v)\<close> takes the number modulo \<open>2^16\<close>.\<close>

definition fromCharCode :: "int \<Rightarrow> jschar" where
  "fromCharCode v = word_of_int v"

text \<open>
  \<open>clean\<close> replaces every match of \<open>/&([^;]+);/g\<close>, from left to right, by what the
  callback returns for the text \<open>ent\<close> between \<open>&\<close> and \<open>;\<close>. A match starts at an
  \<open>&\<close> that is followed by at least one character other than \<open>;\<close> and, later, by a
  \<open>;\<close>; the negated class also matches line breaks. \<open>matchEntity\<close> is the match
  tried right after an \<open>&\<close>: the entity text and what follows the \<open>;\<close>.

  The callback reads \<open>entitiesByName[ent]\<close>, a plain object, and returns what it finds
  when that is truthy: for a name of \<open>Object.prototype\<close> it returns the inherited
  value, which \<open>replace\<close> converts to a string.
\<close>

definition decodeEntity :: "jsstring \<Rightarrow> parse_error + jsstring" where
  "decodeEntity ent =
     (case map_of entitiesByName ent of
        Some ch \<Rightarrow> Inr [ch]
      | None \<Rightarrow>
          if truthy (inherited ent) then Inr (toStr (inherited ent))
          else if take 1 ent \<noteq> js ''#'' then Inl (InvalidEntity ent)
          else
            let ent1 = drop 1 ent;
                hex = (take 1 ent1 = js ''x'');
                ent2 = (if hex then drop 1 ent1 else ent1);
                radix = (if hex then 16 else 10)
            in case parseInt ent2 radix of
                 None \<Rightarrow> Inl (HexValueExpected ent2)
               | Some v \<Rightarrow> Inr [fromCharCode v])"

definition matchEntity :: "jsstring \<Rightarrow> (jsstring \<times> jsstring) option" where
  "matchEntity cs =
     (let ent = takeWhile (\<lambda>c. c \<noteq> 0x3B) cs; rest = dropWhile (\<lambda>c. c \<noteq> 0x3B) cs
      in if ent \<noteq> [] \<and> rest \<noteq> [] then Some (ent, tl rest) else None)"

lemma matchEntity_shorter: "matchEntity cs = Some (ent, rest) \<Longrightarrow> length rest < length cs"
proof -
  assume m: "matchEntity cs = Some (ent, rest)"
  have "length (dropWhile (\<lambda>c. c \<noteq> 0x3B) cs) \<le> length cs"
    by (rule length_dropWhile_le)
  moreover from m have "dropWhile (\<lambda>c. c \<noteq> 0x3B) cs \<noteq> []"
    and "rest = tl (dropWhile (\<lambda>c. c \<noteq> 0x3B) cs)"
    by (auto simp: matchEntity_def Let_def split: if_splits)
  ultimately show ?thesis
    by (cases "dropWhile (\<lambda>c. c \<noteq> 0x3B) cs") auto
qed

function clean :: "jsstring \<Rightarrow> parse_error + jsstring" where
  "clean [] = Inr []"
| "clean (c # cs) =
     (case (if c = 0x26 then matchEntity cs else None) of
        Some (ent, rest) \<Rightarrow>
          (case decodeEntity ent of
             Inl e \<Rightarrow> Inl e
           | Inr r \<Rightarrow> (case clean rest of Inl e \<Rightarrow> Inl e | Inr t \<Rightarrow> Inr (r @ t)))
      | None \<Rightarrow> (case clean cs of Inl e \<Rightarrow> Inl e | Inr t \<Rightarrow> Inr (c # t)))"
  by pat_completeness auto
termination
  by (relation "measure length") (auto split: if_splits dest: matchEntity_shorter)

text \<open>\<open>checkEmpty\<close> throws when the text matches \<open>/[^ \t\r\n]/\<close>.\<close>

definition checkEmpty :: "jsstring \<Rightarrow> parse_error + unit" where
  "checkEmpty s =
     (if \<exists>c \<in> set s. c \<noteq> 0x20 \<and> c \<noteq> 0x09 \<and> c \<noteq> 0x0D \<and> c \<noteq> 0x0A
      then Inl (UnexpectedValue s) else Inr ())"

subsection \<open>Cursor movements\<close>

function eatSpaces :: "jsstring \<Rightarrow> nat \<Rightarrow> nat" where
  "eatSpaces str pos = (if space (charCodeAt str pos) then eatSpaces str (pos + 1) else pos)"
  by pat_completeness auto
termination
  by (relation "measure (\<lambda>(str, pos). length str - pos)")
     (auto simp: space_def charCodeAt_def split: if_splits)

declare eatSpaces.simps [simp del]

text \<open>The loop \<open>while (inWord[str.charCodeAt(pos)]) pos++\<close>, written three times in \<open>parse\<close>.\<close>

function eatWord :: "jsstring \<Rightarrow> nat \<Rightarrow> nat" where
  "eatWord str pos = (if inWord (charCodeAt str pos) then eatWord str (pos + 1) else pos)"
  by pat_completeness auto
termination
  by (relation "measure (\<lambda>(str, pos). length str - pos)")
     (auto simp: inWord_def charCodeAt_def split: if_splits)

declare eatWord.simps [simp del]

definition eat :: "jschar \<Rightarrow> jsstring \<Rightarrow> nat \<Rightarrow> parse_error + nat" where
  "eat ch str pos =
     (if charCodeAt str pos \<noteq> Some ch then Inl (Expected ch (charCodeAt str pos))
      else Inr (pos + 1))"

definition eatQuote :: "jsstring \<Rightarrow> nat \<Rightarrow> parse_error + (jschar \<times> nat)" where
  "eatQuote str pos =
     (case charCodeAt str pos of
        None \<Rightarrow> Inl (ExpectedQuote None)
      | Some ch \<Rightarrow>
          if ch \<noteq> 0x22 \<and> ch \<noteq> 0x27 then Inl (ExpectedQuote (Some ch))
          else Inr (ch, pos + 1))"

lemma findSub_bound: "findSub needle s = Some k \<Longrightarrow> k + length needle \<le> length s"
proof (induction s arbitrary: k)
  case Nil
  then show ?case by (simp split: if_splits)
next
  case (Cons c cs)
  show ?case
  proof (cases "take (length needle) (c # cs) = needle")
    case True
    then have "length (take (length needle) (c # cs)) = length needle"
      by simp
    then have "length needle \<le> length (c # cs)"
      by simp
    with True Cons.prems show ?thesis by simp
  next
    case False
    with Cons.prems obtain k' where "findSub needle cs = Some k'" "k = Suc k'"
      by auto
    with Cons.IH show ?thesis by fastforce
  qed
qed

lemma indexOf_bounds:
  assumes "indexOf needle s from = Some j" and "needle \<noteq> []"
  shows "from \<le> j" and "j + length needle \<le> length s"
proof -
  from assms(1) obtain k where k: "findSub needle (drop from s) = Some k"
    and j: "j = min from (length s) + k"
    by (auto simp: indexOf_def)
  from findSub_bound [OF k] have b: "k + length needle \<le> length s - from" by simp
  with assms(2) have "from < length s" by (cases needle) auto
  with j b show "from \<le> j" and "j + length needle \<le> length s" by auto
qed

subsection \<open>Element content\<close>

text \<open>
  The text after \<open>>\<close> runs up to the next \<open><\<close>; a comment inside it is skipped
  and the text continues behind it. \<open>scanText\<close> is the inner \<open>while (true)\<close> of the
  \<open>GT\<close> branch: it returns the text decoded so far, \<open>pos\<close> and the index \<open>j\<close> of
  the \<open><\<close> that ends the text.
\<close>

function scanText :: "jsstring \<Rightarrow> nat \<Rightarrow> jsstring \<Rightarrow> parse_error + (jsstring \<times> nat \<times> nat)" where
  "scanText str pos val =
     (case indexOf [LT] str pos of
        None \<Rightarrow> Inl TagNotClosed
      | Some j \<Rightarrow>
          if charCodeAt str (j + 1) = Some EXCLAM \<and> substring str (j + 2) (j + 4) = js ''--''
          then (case clean (substring str pos j) of
                  Inl e \<Rightarrow> Inl e
                | Inr c \<Rightarrow>
                    (case indexOf (js ''-->'') str (j + 4) of
                       None \<Rightarrow> Inl UnterminatedComment
                     | Some j' \<Rightarrow> scanText str (j' + 3) (val @ c)))
          else Inr (val, pos, j))"
  by pat_completeness auto
termination
proof (relation "measure (\<lambda>(str, pos, val). length str - pos)", goal_cases)
  case 1
  show ?case by simp
next
  case (2 str pos val j c j')
  have "pos \<le> j" "j + 1 \<le> length str"
    using indexOf_bounds [OF 2(1)] by simp_all
  moreover have "j + 4 \<le> j'"
    using indexOf_bounds(1) [OF 2(4)] by simp
  ultimately show ?case by simp
qed

declare scanText.simps [simp del]

definition parseContent :: "jsstring \<Rightarrow> nat \<Rightarrow> builder \<Rightarrow> parse_error + (nat \<times> builder)" where
  "parseContent str pos0 bld =
     bindE (scanText str pos0 []) (\<lambda>(val0, pos, j).
     bindE (clean (substring str pos j)) (\<lambda>c.
       let val = val0 @ c in
       if charCodeAt str (j + 1) = Some SLASH
       then bindE (value val bld) (\<lambda>bld. Inr (j, bld))
       else bindE (checkEmpty val) (\<lambda>_. Inr (pos, bld))))"

subsection \<open>Open tags\<close>

text \<open>The attribute branch of the tag loop, entered with \<open>beg\<close> at the first character
  of the attribute name and \<open>pos\<close> behind it.\<close>

definition parseAttribute ::
  "jsstring \<Rightarrow> nat \<Rightarrow> nat \<Rightarrow> builder \<Rightarrow> parse_error + (nat \<times> builder)" where
  "parseAttribute str beg pos0 bld =
     (let pos = eatWord str pos0;
          atb = substring str beg pos;
          pos = eatSpaces str pos
      in bindE (eat EQ str pos) (\<lambda>pos.
         bindE (eatQuote str (eatSpaces str pos)) (\<lambda>(quote, beg).
           case indexOf [quote] str beg of
             None \<Rightarrow> Inl DoubleQuoteMissing
           | Some pos \<Rightarrow>
               bindE (clean (substring str beg pos)) (\<lambda>val.
               bindE (attribute atb val bld) (\<lambda>bld. Inr (pos + 1, bld))))))"

lemma eatSpaces_ge: "pos \<le> eatSpaces str pos"
proof (induction str pos rule: eatSpaces.induct)
  case (1 str pos)
  show ?case
  proof (cases "space (charCodeAt str pos)")
    case True
    with 1 have "pos + 1 \<le> eatSpaces str (pos + 1)" by simp
    with True show ?thesis by (subst eatSpaces.simps) simp
  next
    case False
    then show ?thesis by (subst eatSpaces.simps) simp
  qed
qed

lemma eatWord_ge: "pos \<le> eatWord str pos"
proof (induction str pos rule: eatWord.induct)
  case (1 str pos)
  show ?case
  proof (cases "inWord (charCodeAt str pos)")
    case True
    with 1 have "pos + 1 \<le> eatWord str (pos + 1)" by simp
    with True show ?thesis by (subst eatWord.simps) simp
  next
    case False
    then show ?thesis by (subst eatWord.simps) simp
  qed
qed

lemma eat_Inr: "eat ch str pos = Inr p \<longleftrightarrow> charCodeAt str pos = Some ch \<and> p = pos + 1"
  by (auto simp: eat_def)

lemma eatQuote_Inr:
  "eatQuote str pos = Inr (q, p) \<longleftrightarrow>
     charCodeAt str pos = Some q \<and> (q = 0x22 \<or> q = 0x27) \<and> p = pos + 1"
  by (auto simp: eatQuote_def split: option.splits)

lemma parseAttribute_gt:
  assumes "parseAttribute str beg pos0 bld = Inr (pos', bld')"
  shows "pos0 < pos'"
proof -
  define p1 where "p1 = eatSpaces str (eatWord str pos0)"
  from assms obtain p2 quote beg' j where e: "eat EQ str p1 = Inr p2"
    and q: "eatQuote str (eatSpaces str p2) = Inr (quote, beg')"
    and j: "indexOf [quote] str beg' = Some j" and p': "pos' = j + 1"
    by (auto simp: parseAttribute_def Let_def p1_def bindE_eq_Inr split: option.splits)
  from e have p2: "p2 = p1 + 1" by (simp add: eat_Inr)
  from q have b: "beg' = eatSpaces str p2 + 1" by (simp add: eatQuote_Inr)
  have "beg' \<le> j" using indexOf_bounds(1) [OF j] by simp
  moreover have "pos0 \<le> p1"
    unfolding p1_def
    using eatWord_ge [of pos0 str] eatSpaces_ge [of "eatWord str pos0" str] by linarith
  moreover have "p2 \<le> eatSpaces str p2" by (rule eatSpaces_ge)
  ultimately show ?thesis using p2 b p' by linarith
qed

text \<open>The \<open>while (true)\<close> loop that follows the tag name.\<close>

function tagLoop :: "jsstring \<Rightarrow> nat \<Rightarrow> builder \<Rightarrow> parse_error + (nat \<times> builder)" where
  "tagLoop str pos0 bld =
     (let pos = eatSpaces str pos0;
          ch = charCodeAt str pos
      in if ch = Some SLASH then
           bindE (eat GT str (pos + 1)) (\<lambda>pos.
           bindE (pop None bld) (\<lambda>bld. Inr (pos, bld)))
         else if begWord ch then
           (case parseAttribute str pos (pos + 1) bld of
              Inl e \<Rightarrow> Inl e
            | Inr (pos', bld') \<Rightarrow> tagLoop str pos' bld')
         else if ch = Some GT then parseContent str (pos + 1) bld
         else Inl (UnexpectedCharacter ch))"
  by pat_completeness auto
termination
proof (relation "measure (\<lambda>(str, pos, bld). length str - pos)", goal_cases)
  case 1
  show ?case by simp
next
  case (2 str pos0 bld pos ch res pos' bld')
  then have "pos < length str"
    by (auto simp: begWord_def charCodeAt_def split: if_splits)
  moreover from 2 have "pos0 \<le> pos" by (simp add: eatSpaces_ge)
  moreover from 2 have "pos < pos'" using parseAttribute_gt [of str pos "pos + 1" bld pos' bld']
    by simp
  ultimately show ?case by simp
qed

declare tagLoop.simps [simp del]

lemma scanText_bounds:
  "scanText str pos val = Inr (val', pos', j) \<Longrightarrow> pos \<le> pos' \<and> pos' \<le> j \<and> j < length str"
proof (induction str pos val rule: scanText.induct)
  case (1 str pos val)
  from "1.prems" obtain j0 where j0: "indexOf [LT] str pos = Some j0"
    by (subst (asm) scanText.simps) (simp split: option.splits)
  define cm where
    "cm \<longleftrightarrow> charCodeAt str (j0 + 1) = Some EXCLAM \<and> substring str (j0 + 2) (j0 + 4) = js ''--''"
  from "1.prems" j0 have u:
    "(if cm
      then (case clean (substring str pos j0) of
              Inl e \<Rightarrow> Inl e
            | Inr c \<Rightarrow>
                (case indexOf (js ''-->'') str (j0 + 4) of
                   None \<Rightarrow> Inl UnterminatedComment
                 | Some j' \<Rightarrow> scanText str (j' + 3) (val @ c)))
      else Inr (val, pos, j0)) = Inr (val', pos', j)"
    unfolding cm_def by (subst (asm) scanText.simps) simp
  have b: "pos \<le> j0" "j0 + 1 \<le> length str"
    using indexOf_bounds [OF j0] by simp_all
  show ?case
  proof (cases cm)
    case False
    with u have "pos' = pos" "j = j0" by simp_all
    with b show ?thesis by simp
  next
    case True
    with u obtain c j1 where c: "clean (substring str pos j0) = Inr c"
      and j1: "indexOf (js ''-->'') str (j0 + 4) = Some j1"
      and r: "scanText str (j1 + 3) (val @ c) = Inr (val', pos', j)"
      by (simp split: sum.splits option.splits)
    from "1.IH" [OF j0 True [unfolded cm_def] c j1 r]
    have "j1 + 3 \<le> pos'" "pos' \<le> j" "j < length str"
      by simp_all
    moreover have "j0 + 4 \<le> j1" using indexOf_bounds(1) [OF j1] by simp
    ultimately show ?thesis using b by simp
  qed
qed

lemma parseContent_ge:
  assumes "parseContent str pos0 bld = Inr (pos', bld')"
  shows "pos0 \<le> pos'"
proof -
  from assms obtain val0 pos j where s: "scanText str pos0 [] = Inr (val0, pos, j)"
    and p: "pos' = j \<or> pos' = pos"
    by (auto simp: parseContent_def Let_def bindE_eq_Inr split: if_splits)
  from scanText_bounds [OF s] p show ?thesis by auto
qed

lemma tagLoop_ge: "tagLoop str pos0 bld = Inr (pos', bld') \<Longrightarrow> pos0 \<le> pos'"
proof (induction str pos0 bld rule: tagLoop.induct)
  case (1 str pos0 bld)
  define pos where "pos = eatSpaces str pos0"
  define ch where "ch = charCodeAt str pos"
  have p: "pos0 \<le> pos" unfolding pos_def by (rule eatSpaces_ge)
  consider (slash) "ch = Some SLASH"
    | (atb) "ch \<noteq> Some SLASH" "begWord ch"
    | (gt) "ch \<noteq> Some SLASH" "\<not> begWord ch" "ch = Some GT"
    | (other) "ch \<noteq> Some SLASH" "\<not> begWord ch" "ch \<noteq> Some GT"
    by blast
  then show ?case
  proof cases
    case slash
    with "1.prems" have "pos' = pos + 1 + 1"
      by (subst (asm) tagLoop.simps)
         (auto simp: Let_def pos_def [symmetric] ch_def [symmetric] bindE_eq_Inr eat_Inr)
    with p show ?thesis by simp
  next
    case atb
    with "1.prems" obtain p1 b1 where a: "parseAttribute str pos (pos + 1) bld = Inr (p1, b1)"
      and r: "tagLoop str p1 b1 = Inr (pos', bld')"
      by (subst (asm) tagLoop.simps)
         (auto simp: Let_def pos_def [symmetric] ch_def [symmetric] split: sum.splits)
    from "1.IH" [OF pos_def ch_def atb a refl r] have "p1 \<le> pos'" .
    with parseAttribute_gt [OF a] p show ?thesis by simp
  next
    case gt
    with "1.prems" have "parseContent str (pos + 1) bld = Inr (pos', bld')"
      by (subst (asm) tagLoop.simps)
         (auto simp: Let_def pos_def [symmetric] ch_def [symmetric])
    from parseContent_ge [OF this] p show ?thesis by simp
  next
    case other
    with "1.prems" show ?thesis
      by (subst (asm) tagLoop.simps)
         (auto simp: Let_def pos_def [symmetric] ch_def [symmetric])
  qed
qed

subsection \<open>The main loop\<close>

text \<open>The closing-tag branch, entered behind \<open></\<close>.\<close>

definition closingTag :: "jsstring \<Rightarrow> nat \<Rightarrow> builder \<Rightarrow> parse_error + (nat \<times> builder)" where
  "closingTag str pos0 bld =
     (let beg = pos0;
          ch = charCodeAt str pos0;
          pos = (if begWord ch then eatWord str (pos0 + 1) else pos0);
          tag = (if begWord ch then Some (substring str beg pos) else None);
          pos = eatSpaces str pos
      in bindE (eat GT str pos) (\<lambda>pos.
         bindE (pop tag bld) (\<lambda>bld. Inr (pos, bld))))"

text \<open>The branch behind \<open><!\<close>: a comment or a CDATA section.\<close>

definition exclam :: "jsstring \<Rightarrow> nat \<Rightarrow> builder \<Rightarrow> parse_error + (nat \<times> builder)" where
  "exclam str pos0 bld =
     (let ch = charCodeAt str pos0;
          pos = pos0 + 1
      in if ch = Some DASH \<and> charCodeAt str pos = Some DASH then
           (case indexOf (js ''-->'') str (pos + 1) of
              None \<Rightarrow> Inl CommentEndMissing
            | Some j \<Rightarrow> Inr (j + 3, bld))
         else
           let pos = (if ch = Some DASH then pos + 1 else pos)
           in if ch = Some OBRA \<and> substring str pos (pos + 6) = js ''CDATA['' then
                (case indexOf (js '']]>'') str (pos + 6) of
                   None \<Rightarrow> Inl CDataEndMissing
                 | Some j \<Rightarrow>
                     bindE (cdata (substring str (pos + 6) j) bld) (\<lambda>bld.
                       Inr (eatSpaces str (j + 3), bld)))
              else Inl InvalidSyntaxAfterExclam)"

text \<open>
  One turn of \<open>while (pos < len)\<close>: \<open>eat(LT)\<close>, the branch chosen by the character
  at \<open>beg\<close> behind the \<open><\<close>, and \<open>eatSpaces()\<close>.
\<close>

definition dispatch :: "jsstring \<Rightarrow> nat \<Rightarrow> builder \<Rightarrow> parse_error + (nat \<times> builder)" where
  "dispatch str beg bld =
     (let ch = charCodeAt str beg;
          pos = beg + 1
      in if begWord ch then
           (let pos = eatWord str pos
            in bindE (push (substring str beg pos) bld) (\<lambda>bld. tagLoop str pos bld))
         else if ch = Some SLASH then closingTag str pos bld
         else if ch = Some EXCLAM then exclam str pos bld
         else if ch = Some QMARK then
           (case indexOf (js ''?>'') str pos of
              None \<Rightarrow> Inl PIEndMissing
            | Some j \<Rightarrow> Inr (j + 2, bld))
         else Inl (UnexpectedCharacter ch))"

definition step :: "jsstring \<Rightarrow> nat \<Rightarrow> builder \<Rightarrow> parse_error + (nat \<times> builder)" where
  "step str pos0 bld =
     bindE (eat LT str pos0) (\<lambda>pos.
     bindE (dispatch str pos bld) (\<lambda>(pos, bld).
       Inr (eatSpaces str pos, bld)))"

lemma closingTag_ge:
  assumes "closingTag str pos0 bld = Inr (pos', bld')"
  shows "pos0 \<le> pos'"
proof -
  define p1 where "p1 = (if begWord (charCodeAt str pos0) then eatWord str (pos0 + 1) else pos0)"
  from assms have "pos' = eatSpaces str p1 + 1"
    by (auto simp: closingTag_def Let_def p1_def bindE_eq_Inr eat_Inr)
  moreover have "pos0 \<le> p1"
    unfolding p1_def using eatWord_ge [of "pos0 + 1" str] by auto
  moreover have "p1 \<le> eatSpaces str p1" by (rule eatSpaces_ge)
  ultimately show ?thesis by simp
qed

lemma exclam_ge:
  assumes "exclam str pos0 bld = Inr (pos', bld')"
  shows "pos0 \<le> pos'"
proof (cases "charCodeAt str pos0 = Some DASH \<and> charCodeAt str (pos0 + 1) = Some DASH")
  case True
  with assms obtain j where j: "indexOf (js ''-->'') str (pos0 + 1 + 1) = Some j" and "pos' = j + 3"
    by (auto simp: exclam_def Let_def split: option.splits)
  with indexOf_bounds(1) [OF j] show ?thesis by simp
next
  case False
  define p where "p = (if charCodeAt str pos0 = Some DASH then pos0 + 1 + 1 else pos0 + 1)"
  from False assms obtain j where j: "indexOf (js '']]>'') str (p + 6) = Some j"
    and "pos' = eatSpaces str (j + 3)"
    by (auto simp: exclam_def Let_def p_def bindE_eq_Inr split: option.splits if_splits)
  moreover have "j + 3 \<le> eatSpaces str (j + 3)" by (rule eatSpaces_ge)
  moreover have "pos0 \<le> p" by (simp add: p_def)
  ultimately show ?thesis using indexOf_bounds(1) [OF j] by simp
qed

lemma dispatch_ge:
  assumes "dispatch str beg bld = Inr (pos', bld')"
  shows "beg \<le> pos'"
proof -
  define ch where "ch = charCodeAt str beg"
  consider (w) "begWord ch"
    | (s) "\<not> begWord ch" "ch = Some SLASH"
    | (e) "\<not> begWord ch" "ch \<noteq> Some SLASH" "ch = Some EXCLAM"
    | (q) "\<not> begWord ch" "ch \<noteq> Some SLASH" "ch \<noteq> Some EXCLAM" "ch = Some QMARK"
    | (o) "\<not> begWord ch" "ch \<noteq> Some SLASH" "ch \<noteq> Some EXCLAM" "ch \<noteq> Some QMARK"
    by blast
  then show ?thesis
  proof cases
    case w
    with assms obtain b1 where "tagLoop str (eatWord str (beg + 1)) b1 = Inr (pos', bld')"
      unfolding dispatch_def Let_def ch_def [symmetric] by (auto simp: bindE_eq_Inr)
    from tagLoop_ge [OF this] eatWord_ge [of "beg + 1" str] show ?thesis by linarith
  next
    case s
    with assms have "closingTag str (beg + 1) bld = Inr (pos', bld')"
      unfolding dispatch_def Let_def ch_def [symmetric] by simp
    from closingTag_ge [OF this] show ?thesis by simp
  next
    case e
    with assms have "exclam str (beg + 1) bld = Inr (pos', bld')"
      unfolding dispatch_def Let_def ch_def [symmetric] by simp
    from exclam_ge [OF this] show ?thesis by simp
  next
    case q
    with assms obtain j where j: "indexOf (js ''?>'') str (beg + 1) = Some j" and "pos' = j + 2"
      unfolding dispatch_def Let_def ch_def [symmetric] by (auto split: option.splits)
    with indexOf_bounds(1) [OF j] show ?thesis by simp
  next
    case o
    with assms show ?thesis
      unfolding dispatch_def Let_def ch_def [symmetric] by simp
  qed
qed

lemma step_gt:
  assumes "step str pos0 bld = Inr (pos', bld')"
  shows "pos0 < pos'"
proof -
  from assms obtain p b where d: "dispatch str (pos0 + 1) bld = Inr (p, b)"
    and p': "pos' = eatSpaces str p"
    unfolding step_def by (auto simp: bindE_eq_Inr eat_Inr)
  from dispatch_ge [OF d] p' eatSpaces_ge [of p str] show ?thesis by linarith
qed

function mainLoop :: "jsstring \<Rightarrow> nat \<Rightarrow> builder \<Rightarrow> parse_error + jsval" where
  "mainLoop str pos bld =
     (if pos < length str then
        (case step str pos bld of
           Inl e \<Rightarrow> Inl e
         | Inr (pos', bld') \<Rightarrow> mainLoop str pos' bld')
      else getResult bld)"
  by pat_completeness auto
termination
  by (relation "measure (\<lambda>(str, pos, bld). length str - pos)")
     (auto dest: step_gt)

declare mainLoop.simps [simp del]

text \<open>
  \<open>parse(str)\<close> without a reviver (\<open>revive\<close> then returns the tree as it is). The cursor
  starts at \<open>str.indexOf('<')\<close>. When the text has no \<open><\<close> this is \<open>-1\<close>, which is
  less than the length: the loop is entered and \<open>eat(LT)\<close> throws, since
  \<open>charCodeAt(-1)\<close> is \<open>NaN\<close>.
\<close>

definition parse :: "jsstring \<Rightarrow> parse_error + jsval" where
  "parse str =
     (case indexOf [LT] str 0 of
        None \<Rightarrow> Inl (Expected LT None)
      | Some pos \<Rightarrow> mainLoop str pos builder)"

section \<open>The serializer\<close>

subsection \<open>Conversion to string\<close>

text \<open>\<open>n.toString(radix)\<close> for a natural number, with lower-case digits.\<close>

definition digitChar :: "nat \<Rightarrow> jschar" where
  "digitChar d = (if d < 10 then 0x30 + of_nat d else 0x61 + of_nat (d - 10))"

function toStringRadix :: "nat \<Rightarrow> nat \<Rightarrow> jsstring" where
  "toStringRadix radix n =
     (if n < radix \<or> radix < 2 then [digitChar n]
      else toStringRadix radix (n div radix) @ [digitChar (n mod radix)])"
  by pat_completeness auto
termination
  by (relation "measure (\<lambda>(radix, n). n)") auto

declare toStringRadix.simps [simp del]

text \<open>\<open>Object.keys(v)\<close> with the values: the own enumerable properties of a value.\<close>

definition indexed :: "jsval list \<Rightarrow> props" where
  "indexed xs = zip (map (toStringRadix 10) [0..<length xs]) xs"

fun ownProps :: "jsval \<Rightarrow> props" where
  "ownProps (Obj kvs) = kvs"
| "ownProps (Arr xs) = indexed xs"
| "ownProps (Str s) = indexed (map (\<lambda>c. Str [c]) s)"
| "ownProps _ = []"

subsection \<open>The formatter\<close>

text \<open>
  \<open>escape\<close> replaces every match of a regular expression that matches one code
  unit: one of \<open>& < > " '\<close>, or a code unit outside the ranges \<open>0x20-0x7E\<close>,
  \<open>0xA1-0xD7FF\<close> and \<open>0xE000-0xFFFD\<close>. The callback returns the named entity of
  \<open>entitiesByChar\<close>, or the char code in hexadecimal, padded by the two \<open>while\<close>
  loops.
\<close>

definition escapeMatches :: "jschar \<Rightarrow> bool" where
  "escapeMatches ch =
     (ch \<in> set [0x26, 0x3C, 0x3E, 0x22, 0x27]
      \<or> \<not> ((0x20 \<le> ch \<and> ch \<le> 0x7E) \<or> (0xA1 \<le> ch \<and> ch \<le> 0xD7FF)
             \<or> (0xE000 \<le> ch \<and> ch \<le> 0xFFFD)))"

function pad2 :: "jsstring \<Rightarrow> jsstring" where
  "pad2 hex = (if length hex < 2 then pad2 (0x30 # hex) else hex)"
  by pat_completeness auto
termination
  by (relation "measure (\<lambda>hex. 2 - length hex)") auto

declare pad2.simps [simp del]

function pad4 :: "jsstring \<Rightarrow> jsstring" where
  "pad4 hex = (if length hex > 2 \<and> length hex < 4 then pad4 (0x30 # hex) else hex)"
  by pat_completeness auto
termination
  by (relation "measure (\<lambda>hex. 4 - length hex)") auto

declare pad4.simps [simp del]

definition escapeChar :: "jschar \<Rightarrow> jsstring" where
  "escapeChar ch =
     (case map_of entitiesByChar ch of
        Some ent \<Rightarrow> js ''&'' @ ent @ js '';''
      | None \<Rightarrow> js ''&#x'' @ pad4 (pad2 (toStringRadix 16 (unat ch))) @ js '';'')"

fun replaceEscape :: "jsstring \<Rightarrow> jsstring" where
  "replaceEscape [] = []"
| "replaceEscape (ch # cs) =
     (if escapeMatches ch then escapeChar ch @ replaceEscape cs else ch # replaceEscape cs)"

definition escape :: "jsval \<Rightarrow> jsstring" where
  "escape val = (case val of Str s \<Rightarrow> replaceEscape s | _ \<Rightarrow> toStr val)"

record formatter =
  fmt_str :: jsstring
  fmt_depth :: nat

definition formatter :: formatter where
  "formatter = \<lparr>fmt_str = [], fmt_depth = 0\<rparr>"

text \<open>\<open>options.indent\<close> is a string, \<open>null\<close> or absent (\<open>None\<close>); it counts when it is a
  non-empty string.\<close>

definition indentOn :: "jsstring option \<Rightarrow> bool" where
  "indentOn opt = (case opt of None \<Rightarrow> False | Some s \<Rightarrow> s \<noteq> [])"

definition indent :: "jsstring option \<Rightarrow> formatter \<Rightarrow> formatter" where
  "indent opt f =
     f\<lparr>fmt_str := fmt_str f @ [LF]
          @ concat (replicate (fmt_depth f) (if indentOn opt then the opt else [0x09]))\<rparr>"

definition beginTag :: "jsstring option \<Rightarrow> jsstring \<Rightarrow> formatter \<Rightarrow> formatter" where
  "beginTag opt tag f0 =
     (let f = (if indentOn opt then indent opt f0 else f0)
      in f\<lparr>fmt_str := fmt_str f @ js ''<'' @ tag, fmt_depth := fmt_depth f + 1\<rparr>)"

definition addAttribute :: "jsstring \<Rightarrow> jsval \<Rightarrow> formatter \<Rightarrow> formatter" where
  "addAttribute atb val f =
     f\<lparr>fmt_str := fmt_str f @ js '' '' @ atb @ js ''=\"'' @ escape val @ js ''\"''\<rparr>"

definition endTag :: "bool \<Rightarrow> formatter \<Rightarrow> formatter" where
  "endTag close f =
     (let f1 = (if close then f\<lparr>fmt_depth := fmt_depth f - 1\<rparr> else f)
      in f1\<lparr>fmt_str := fmt_str f1 @ (if close then js ''/>'' else js ''>'')\<rparr>)"

definition closeTag :: "jsstring option \<Rightarrow> jsstring \<Rightarrow> jsval \<Rightarrow> formatter \<Rightarrow> formatter" where
  "closeTag opt tag val f0 =
     (let f = f0\<lparr>fmt_depth := fmt_depth f0 - 1\<rparr>;
          f1 = (if notNull val then f\<lparr>fmt_str := fmt_str f @ escape val\<rparr>
                else if indentOn opt then indent opt f else f)
      in f1\<lparr>fmt_str := fmt_str f1 @ js ''</'' @ tag @ js ''>''\<rparr>)"

definition fmt_cdata :: "jsval \<Rightarrow> formatter \<Rightarrow> formatter" where
  "fmt_cdata data f = f\<lparr>fmt_str := fmt_str f @ js ''<![CDATA['' @ toStr data @ js '']]>''\<rparr>"

definition fmt_getResult :: "formatter \<Rightarrow> jsstring" where
  "fmt_getResult f =
     (case indexOf [LT] (fmt_str f) 0 of
        None \<Rightarrow> fmt_str f
      | Some i \<Rightarrow> drop i (fmt_str f))"

subsection \<open>stringify\<close>

text \<open>The attributes of \<open>elt.$\<close>, those with value \<open>null\<close> or \<open>undefined\<close> left out.\<close>

fun addAttributes :: "props \<Rightarrow> formatter \<Rightarrow> formatter" where
  "addAttributes [] f = f"
| "addAttributes ((atb, v) # kvs) f =
     addAttributes kvs (if notNull v then addAttribute atb v f else f)"

definition isChildKey :: "jsstring \<Rightarrow> bool" where
  "isChildKey key = (take 1 key \<noteq> js ''$'')"

text \<open>
  \<open>strfy(elt, tag)\<close>, with \<open>strfyEach\<close> for \<open>elt.forEach\<close> over an array and
  \<open>strfyKeys\<close> for \<open>keys.forEach\<close> over the keys of an object that do not start
  with \<open>$\<close>. A throw leaves through \<open>Inl\<close>: nothing of the text written so far is
  returned. A function is no \<open>object\<close> for \<open>typeof\<close> and is written like a string;
  \<open>Object.prototype\<close> is an object without enumerable properties. The values of the
  attributes, \<open>$value\<close> and \<open>$cdata\<close> are converted to strings where they are
  written: the attributes first, the others behind the tests that throw.
\<close>

fun strfy :: "jsstring option \<Rightarrow> jsval \<Rightarrow> jsstring \<Rightarrow> formatter \<Rightarrow> serialize_error + formatter"
  and strfyEach :: "jsstring option \<Rightarrow> jsval list \<Rightarrow> jsstring \<Rightarrow> formatter \<Rightarrow> serialize_error + formatter"
  and strfyKeys :: "jsstring option \<Rightarrow> props \<Rightarrow> formatter \<Rightarrow> serialize_error + formatter"
where
  "strfy opt Undefined tag f = Inr f"
| "strfy opt (Arr xs) tag f = strfyEach opt xs tag f"
| "strfy opt Null tag f =
     Inr (endTag True (addAttribute (js ''xsi:nil'') (Str (js ''true'')) (beginTag opt tag f)))"
| "strfy opt (Str s) tag f =
     Inr (closeTag opt tag (Str s) (endTag False (beginTag opt tag f)))"
| "strfy opt (Fun n) tag f =
     Inr (closeTag opt tag (Fun n) (endTag False (beginTag opt tag f)))"
| "strfy opt ObjectPrototype tag f = Inr (endTag True (beginTag opt tag f))"
| "strfy opt (Obj kvs) tag f0 =
     (let atts = (if truthy (getProp kvs (js ''$''))
                  then ownProps (getProp kvs (js ''$'')) else []);
          f = addAttributes atts (beginTag opt tag f0);
          keys = filter isChildKey (map fst kvs);
          val = getProp kvs (js ''$value'');
          cd = getProp kvs (js ''$cdata'')
      in if \<not> list_all (\<lambda>a. plainText (snd a)) atts then Inl OwnConversion
         else if val \<noteq> Undefined then
           (if length keys > 0 then Inl CannotMixValueAndChildrenS
            else if truthy cd then Inl CannotMixValueAndCdataS
            else if val = Null then
              Inr (endTag True (addAttribute (js ''xsi:nil'') (Str (js ''true'')) f))
            else if \<not> plainText val then Inl OwnConversion
            else Inr (closeTag opt tag val (endTag False f)))
         else if notNull cd then
           (if length keys > 0 then Inl CannotMixCdataAndChildrenS
            else if \<not> plainText cd then Inl OwnConversion
            else Inr (closeTag opt tag Undefined (fmt_cdata cd (endTag False f))))
         else if length keys > 0 then
           (case strfyKeys opt kvs (endTag False f) of
              Inl e \<Rightarrow> Inl e
            | Inr f' \<Rightarrow> Inr (closeTag opt tag Undefined f'))
         else Inr (endTag True f))"
| "strfyEach opt [] tag f = Inr f"
| "strfyEach opt (child # xs) tag f =
     (case strfy opt child tag f of
        Inl e \<Rightarrow> Inl e
      | Inr f' \<Rightarrow> strfyEach opt xs tag f')"
| "strfyKeys opt [] f = Inr f"
| "strfyKeys opt ((key, v) # kvs) f =
     (if isChildKey key then
        (case strfy opt v key f of
           Inl e \<Rightarrow> Inl e
         | Inr f' \<Rightarrow> strfyKeys opt kvs f')
      else strfyKeys opt kvs f)"

text \<open>
  \<open>stringify(elt, options)\<close>. \<open>Object.keys\<close> throws a \<open>TypeError\<close> on \<open>null\<close> and
  \<open>undefined\<close>, which the declared type of \<open>elt\<close> excludes.
\<close>

definition stringify :: "jsval \<Rightarrow> jsstring option \<Rightarrow> serialize_error + jsstring" where
  "stringify e opt =
     (if \<not> notNull e then Inl NotAnObject
      else
        let keys = ownProps e
        in if length keys \<noteq> 1 then Inl (BadRootElement (length keys))
           else bindE (strfy opt (snd (hd keys)) (fst (hd keys)) formatter) (\<lambda>f.
                  Inr (fmt_getResult f)))"

section \<open>Namespace normalization\<close>

text \<open>\<open>tag.split(':')\<close>, and \<open>parts[0]\<close> and \<open>parts[1]\<close> of the result; a part that is
  missing (\<open>undefined\<close>) and an empty part are both falsy, and are the empty string
  here.\<close>

fun split :: "jschar \<Rightarrow> jsstring \<Rightarrow> jsstring list" where
  "split sep [] = [[]]"
| "split sep (c # cs) =
     (if c = sep then [] # split sep cs
      else (case split sep cs of [] \<Rightarrow> [[c]] | p # ps \<Rightarrow> (c # p) # ps))"

definition part0 :: "jsstring list \<Rightarrow> jsstring" where
  "part0 parts = (case parts of [] \<Rightarrow> [] | p # _ \<Rightarrow> p)"

definition part1 :: "jsstring list \<Rightarrow> jsstring" where
  "part1 parts = (case parts of _ # p # _ \<Rightarrow> p | _ \<Rightarrow> [])"

text \<open>The qualified name of a tag under the bindings \<open>ns\<close>: the last lines of
  \<open>_normalizeNamespaces\<close>, the same in both of its return paths. \<open>ns\<close> is a plain
  object, and \<open>ns[parts[0]]\<close> reads what it inherits for a prefix it does not hold.
  The binding is converted to a string by \<open>+\<close>.\<close>

definition qualify :: "props \<Rightarrow> jsstring \<Rightarrow> jsstring option" where
  "qualify ns tag =
     (let parts = split 0x3A tag
      in if part1 parts \<noteq> []
         then map_option (\<lambda>uri. uri @ js ''|'' @ part1 parts) (toText (getP ns (part0 parts)))
         else if truthy (getProp ns [])
         then map_option (\<lambda>uri. uri @ js ''|'' @ tag) (toText (getProp ns []))
         else Some tag)"

text \<open>
  The first loop over the attributes records the namespace declarations in a copy of
  \<open>ns\<close> and notes which kinds of attributes there are; the second builds \<open>result.$\<close>.
  \<open>nsAttributes\<close> returns the bindings, the first properties of \<open>result\<close> and
  \<open>onlyValue\<close>. The assignments \<open>ns[prefix] = uri\<close> and \<open>result.$[name] = value\<close>
  write to plain objects under names of the input: the result is \<open>None\<close> when one of
  them replaces a prototype, and when a binding is converted by a method of its own.
\<close>

record nsflags =
  nameSpaceDecl :: bool
  nameSpaceAttr :: bool
  bareAttr :: bool

fun declareNamespaces :: "props \<Rightarrow> props \<times> nsflags \<Rightarrow> (props \<times> nsflags) option" where
  "declareNamespaces [] st = Some st"
| "declareNamespaces ((att, v) # atts) (ns, fl) =
     (let parts = split 0x3A att
      in if part0 parts = js ''xmlns''
         then (case putP ns (part1 parts) v of
                 None \<Rightarrow> None
               | Some ns' \<Rightarrow> declareNamespaces atts (ns', fl\<lparr>nameSpaceDecl := True\<rparr>))
         else if part1 parts \<noteq> []
         then declareNamespaces atts (ns, fl\<lparr>nameSpaceAttr := True\<rparr>)
         else declareNamespaces atts (ns, fl\<lparr>bareAttr := True\<rparr>))"

fun translateAttributes :: "props \<Rightarrow> props \<Rightarrow> props \<Rightarrow> props option" where
  "translateAttributes ns [] acc = Some acc"
| "translateAttributes ns ((att, v) # atts) acc =
     (let parts = split 0x3A att
      in if part0 parts \<noteq> js ''xmlns''
         then (case (if part1 parts \<noteq> []
                     then (case toText (getP ns (part0 parts)) of
                             None \<Rightarrow> None
                           | Some uri \<Rightarrow> putP acc (uri @ js ''|'' @ part1 parts) v)
                     else putP acc att v) of
                 None \<Rightarrow> None
               | Some acc' \<Rightarrow> translateAttributes ns atts acc')
         else translateAttributes ns atts acc)"

text \<open>The body of \<open>_addEntry\<close> once the child is normalized: \<open>key\<close> is \<open>res[0]\<close> and
  \<open>r\<close> is \<open>res[1]\<close>. \<open>result\<close> is a plain object: \<open>tmp\<close> is what it holds or inherits
  under \<open>key\<close>. \<open>tmp.push\<close> extends an array that \<open>result\<close> holds itself.\<close>

definition putEntry :: "props \<Rightarrow> jsstring \<Rightarrow> jsval \<Rightarrow> props option" where
  "putEntry result key r =
     (let tmp = getP result key
      in if truthy tmp
         then (case tmp of
                 Arr xs \<Rightarrow> Some (setProp result key (Arr (xs @ [r])))
               | _ \<Rightarrow> putP result key (Arr [tmp, r]))
         else putP result key r)"

definition nsAttributes :: "jsval \<Rightarrow> props \<Rightarrow> (props \<times> props \<times> bool) option" where
  "nsAttributes attributes ns0 =
     (if truthy attributes then
        (case declareNamespaces (ownProps attributes)
                (ns0, \<lparr>nameSpaceDecl = False, nameSpaceAttr = False, bareAttr = False\<rparr>) of
           None \<Rightarrow> None
         | Some (ns, fl) \<Rightarrow>
             if nameSpaceAttr fl \<or> bareAttr fl then
               (if nameSpaceDecl fl \<or> nameSpaceAttr fl
                then (case translateAttributes ns (ownProps attributes) [] of
                        None \<Rightarrow> None
                      | Some atts \<Rightarrow> Some (ns, [(js ''$'', Obj atts)], False))
                else Some (ns, [(js ''$'', attributes)], False))
             else Some (ns, [], True))
      else Some (ns0, [], True))"

text \<open>
  \<open>normalizeNamespaces' obj ns\<close> is \<open>_normalizeNamespaces(obj, ns, tag)\<close> up to the final
  qualification of \<open>tag\<close>: it returns the bindings in force for the tag and the
  result. \<open>normEntries\<close> is the loop \<open>for (const b in obj)\<close>, \<open>normItems\<close> the calls
  of \<open>_addEntry(b, item)\<close> for the items of one key, and \<open>normIndexed\<close> the loop over
  the indices when \<open>obj\<close> is an array. The pair \<open>(result, onlyValue)\<close> is threaded
  through. The result is \<open>None\<close> when an assignment replaces the prototype of
  \<open>ns\<close>, \<open>result\<close> or \<open>result.$\<close>, and when a binding is converted to a string by
  a method of its own; what the source does from there is not modelled.
\<close>

function (sequential) normalizeNamespaces' :: "jsval \<Rightarrow> props \<Rightarrow> (props \<times> jsval) option"
  and normEntries :: "props \<Rightarrow> props \<Rightarrow> props \<times> bool \<Rightarrow> (props \<times> bool) option"
  and normItems :: "props \<Rightarrow> jsstring \<Rightarrow> jsval list \<Rightarrow> props \<times> bool \<Rightarrow> (props \<times> bool) option"
  and normIndexed :: "props \<Rightarrow> nat \<Rightarrow> jsval list \<Rightarrow> props \<times> bool \<Rightarrow> (props \<times> bool) option"
where
  "normalizeNamespaces' (Obj kvs) ns0 =
     (case nsAttributes (getProp kvs (js ''$'')) ns0 of
        None \<Rightarrow> None
      | Some (ns, result0, onlyValue0) \<Rightarrow>
          (case normEntries ns kvs (result0, onlyValue0) of
             None \<Rightarrow> None
           | Some (result, onlyValue) \<Rightarrow>
               (let val = getProp kvs (js ''$value'')
                in Some (ns, if val \<noteq> Undefined
                             then (if onlyValue then val
                                   else Obj (setProp result (js ''$value'') val))
                             else Obj result))))"
| "normalizeNamespaces' (Arr xs) ns0 =
     (case normIndexed ns0 0 xs ([], True) of
        None \<Rightarrow> None
      | Some (result, onlyValue) \<Rightarrow> Some (ns0, Obj result))"
| "normalizeNamespaces' ObjectPrototype ns0 = Some (ns0, Obj [])"
| "normalizeNamespaces' v ns0 = Some (ns0, v)"
| "normEntries ns [] st = Some st"
| "normEntries ns ((b, val) # kvs) st =
     (if take 1 b = js ''$'' \<or> b = [] then normEntries ns kvs st
      else (case val of
              Arr items \<Rightarrow>
                (case normItems ns b items st of
                   None \<Rightarrow> None
                 | Some st' \<Rightarrow> normEntries ns kvs st')
            | _ \<Rightarrow>
                (case normItems ns b [val] st of
                   None \<Rightarrow> None
                 | Some st' \<Rightarrow> normEntries ns kvs st')))"
| "normItems ns name [] st = Some st"
| "normItems ns name (item # items) (result, onlyValue) =
     (case normalizeNamespaces' item ns of
        None \<Rightarrow> None
      | Some (ns', r) \<Rightarrow>
          (case qualify ns' name of
             None \<Rightarrow> None
           | Some key \<Rightarrow>
               (case putEntry result key r of
                  None \<Rightarrow> None
                | Some result' \<Rightarrow> normItems ns name items (result', False))))"
| "normIndexed ns i [] st = Some st"
| "normIndexed ns i (val # xs) st =
     (case val of
        Arr items \<Rightarrow>
          (case normItems ns (toStringRadix 10 i) items st of
             None \<Rightarrow> None
           | Some st' \<Rightarrow> normIndexed ns (i + 1) xs st')
      | _ \<Rightarrow>
          (case normItems ns (toStringRadix 10 i) [val] st of
             None \<Rightarrow> None
           | Some st' \<Rightarrow> normIndexed ns (i + 1) xs st'))"
  by pat_completeness auto
termination
  by (relation "measure (\<lambda>x. case x of
          Inl (Inl (v, ns)) \<Rightarrow> 2 * size v
        | Inl (Inr (ns, kvs, st)) \<Rightarrow> 2 * size_list (size_prod (\<lambda>_. 0) size) kvs
        | Inr (Inl (ns, name, items, st)) \<Rightarrow> 2 * size_list size items
        | Inr (Inr (ns, i, xs, st)) \<Rightarrow> 2 * size_list size xs + 1)")
     auto

definition normalizeNamespaces :: "jsval \<Rightarrow> jsval option" where
  "normalizeNamespaces obj = map_option snd (normalizeNamespaces' obj [])"

section \<open>Properties of the parser\<close>

text \<open>
  C3 (shape collapse at the public parse interface).
  \<open>parse("<a/>")\<close> is \<open>{a: {}}\<close>: a self-closing tag without attributes is an empty
  object. \<open>parse("<a></a>")\<close> is \<open>{a: ""}\<close>: a closed tag with text, here the empty
  text, and no attributes collapses to a bare string. \<open>parse('<a x="3"/>')\<close> is
  \<open>{a: {$: {x: "3"}}}\<close> and \<open>parse('<a x="3"></a>')\<close> is
  \<open>{a: {$: {x: "3"}, $value: ""}}\<close>: attributes force the wrapped-object form.
\<close>

theorem parse_shape_collapse:
  "parse (js ''<a/>'') = Inr (Obj [(js ''a'', Obj [])])
   \<and> parse (js ''<a></a>'') = Inr (Obj [(js ''a'', Str [])])
   \<and> parse (js ''<a x=\"3\"/>'') =
       Inr (Obj [(js ''a'', Obj [(js ''$'', Obj [(js ''x'', Str (js ''3''))])])])
   \<and> parse (js ''<a x=\"3\"></a>'') =
       Inr (Obj [(js ''a'', Obj [(js ''$'', Obj [(js ''x'', Str (js ''3''))]),
                                 (js ''$value'', Str [])])])"
  by code_simp

subsection \<open>Ampersands and entities\<close>

text \<open>A text in which no \<open>&\<close> is followed, anywhere later, by a \<open>;\<close>.\<close>

fun noEntity :: "jsstring \<Rightarrow> bool" where
  "noEntity [] = True"
| "noEntity (c # cs) = ((c = 0x26 \<longrightarrow> 0x3B \<notin> set cs) \<and> noEntity cs)"

lemma matchEntity_None: "0x3B \<notin> set cs \<Longrightarrow> matchEntity cs = None"
proof -
  assume "0x3B \<notin> set cs"
  then have "dropWhile (\<lambda>c. c \<noteq> 0x3B) cs = []"
    by (auto simp: dropWhile_eq_Nil_conv)
  then show ?thesis by (simp add: matchEntity_def)
qed

lemma clean_noEntity: "noEntity s \<Longrightarrow> clean s = Inr s"
proof (induction s)
  case Nil
  show ?case by simp
next
  case (Cons c cs)
  then have "(if c = 0x26 then matchEntity cs else None) = None"
    by (simp add: matchEntity_None)
  with Cons show ?case by simp
qed

text \<open>
  C10 (implicit). An ampersand that is not followed by a later \<open>;\<close> within the same
  decoded text run is not an error and passes through verbatim: \<open>clean\<close> returns such a
  text unchanged, without calling the entity decoder, and
  \<open>parse("<a>a & b</a>")\<close> succeeds with \<open>{a: "a & b"}\<close>.
\<close>

theorem ampersand_without_semicolon_verbatim:
  "(noEntity s \<longrightarrow> clean s = Inr s)
   \<and> parse (js ''<a>a & b</a>'') = Inr (Obj [(js ''a'', Str (js ''a & b''))])"
proof
  show "noEntity s \<longrightarrow> clean s = Inr s"
    by (simp add: clean_noEntity)
  show "parse (js ''<a>a & b</a>'') = Inr (Obj [(js ''a'', Str (js ''a & b''))])"
    by code_simp
qed

theorem ampersand_without_semicolon_verbatim_witness:
  "noEntity (js ''a & b'') \<and> clean (js ''a & b'') = Inr (js ''a & b'')"
proof -
  have h: "noEntity (js ''a & b'')" by code_simp
  with ampersand_without_semicolon_verbatim [of "js ''a & b''"] show ?thesis by blast
qed

text \<open>
  C6. The claim: every unit \<open>&name;\<close> is decoded (\<open>amp\<close>, \<open>lt\<close>, \<open>gt\<close>, \<open>quot\<close>,
  \<open>apos\<close>, \<open>#decimal\<close>, \<open>#xhex\<close>) and any other name between \<open>&\<close> and \<open>;\<close>
  makes parse fail, never a partial decode. The code reads the number with
  \<open>parseInt\<close>, which stops at the first character that is no digit and ignores the
  rest: \<open>&#12abc;\<close> is not a decimal reference, yet it is decoded as the character 12,
  and \<open>&#x41zz;\<close> as \<open>A\<close>. The theorem evaluates the code at these inputs.
\<close>

theorem entity_partial_decode:
  "parse (js ''<a>&#12abc;</a>'') = Inr (Obj [(js ''a'', Str [0x0C])])
   \<and> parse (js ''<a>&#x41zz;</a>'') = Inr (Obj [(js ''a'', Str (js ''A''))])
   \<and> decodeEntity (js ''#12abc'') = Inr [0x0C]"
  by code_simp

subsection \<open>The scanner never looks behind the cursor\<close>

text \<open>
  Every scanning function reads the text from the cursor onwards only: on \<open>p @ s\<close> at
  position \<open>length p + i\<close> it does what it does on \<open>s\<close> at \<open>i\<close>, with the positions
  it returns moved by \<open>length p\<close>.
\<close>

lemma charCodeAt_shift: "length p \<le> k \<Longrightarrow> charCodeAt (p @ s) k = charCodeAt s (k - length p)"
  by (auto simp: charCodeAt_def nth_append)

lemma substring_shift:
  "length p \<le> a \<Longrightarrow> length p \<le> b \<Longrightarrow>
     substring (p @ s) a b = substring s (a - length p) (b - length p)"
proof -
  assume a: "length p \<le> a" and b: "length p \<le> b"
  then have "min a b - length p = min (a - length p) (b - length p)"
    and "max a b - min a b = max (a - length p) (b - length p) - min (a - length p) (b - length p)"
    and "length p \<le> min a b"
    by (auto simp: min_def max_def)
  then show ?thesis by (simp add: substring_def)
qed

lemma indexOf_shift:
  "length p \<le> k \<Longrightarrow>
     indexOf needle (p @ s) k = map_option ((+) (length p)) (indexOf needle s (k - length p))"
proof -
  assume k: "length p \<le> k"
  then have "min k (length p + length s) = length p + min (k - length p) (length s)"
    by (auto simp: min_def)
  with k show ?thesis
    by (simp add: indexOf_def option.map_comp comp_def add.assoc)
qed

lemma eatSpaces_shift_aux: "eatSpaces (p @ s) (length p + i) = length p + eatSpaces s i"
proof (induction s i rule: eatSpaces.induct)
  case (1 str pos)
  show ?case
  proof (cases "space (charCodeAt str pos)")
    case True
    with 1 have "eatSpaces (p @ str) (length p + (pos + 1)) = length p + eatSpaces str (pos + 1)"
      by simp
    with True show ?thesis
      by (subst eatSpaces.simps, subst (2) eatSpaces.simps)
         (simp add: charCodeAt_shift add.assoc)
  next
    case False
    then show ?thesis
      by (subst eatSpaces.simps, subst (2) eatSpaces.simps) (simp add: charCodeAt_shift)
  qed
qed

lemma eatSpaces_shift:
  "length p \<le> k \<Longrightarrow> eatSpaces (p @ s) k = length p + eatSpaces s (k - length p)"
  using eatSpaces_shift_aux [of p s "k - length p"] by simp

lemma eatWord_shift_aux: "eatWord (p @ s) (length p + i) = length p + eatWord s i"
proof (induction s i rule: eatWord.induct)
  case (1 str pos)
  show ?case
  proof (cases "inWord (charCodeAt str pos)")
    case True
    with 1 have "eatWord (p @ str) (length p + (pos + 1)) = length p + eatWord str (pos + 1)"
      by simp
    with True show ?thesis
      by (subst eatWord.simps, subst (2) eatWord.simps)
         (simp add: charCodeAt_shift add.assoc)
  next
    case False
    then show ?thesis
      by (subst eatWord.simps, subst (2) eatWord.simps) (simp add: charCodeAt_shift)
  qed
qed

lemma eatWord_shift:
  "length p \<le> k \<Longrightarrow> eatWord (p @ s) k = length p + eatWord s (k - length p)"
  using eatWord_shift_aux [of p s "k - length p"] by simp

definition shiftP :: "nat \<Rightarrow> parse_error + (nat \<times> builder) \<Rightarrow> parse_error + (nat \<times> builder)" where
  "shiftP n r = map_sum (\<lambda>e. e) (apfst ((+) n)) r"

lemma shiftP_simps [simp]:
  "shiftP n (Inl e) = Inl e" "shiftP n (Inr (pos, bld)) = Inr (n + pos, bld)"
  by (simp_all add: shiftP_def)

lemma shiftP_bindE: "shiftP n (bindE m f) = bindE m (\<lambda>x. shiftP n (f x))"
  by (cases m) simp_all

lemma shiftP_if: "shiftP n (if c then a else b) = (if c then shiftP n a else shiftP n b)"
  by simp

lemma shiftP_option: "shiftP n (case x of None \<Rightarrow> a | Some y \<Rightarrow> b y) = (case x of None \<Rightarrow> shiftP n a | Some y \<Rightarrow> shiftP n (b y))"
  by (cases x) simp_all

lemma eat_shift:
  "length p \<le> k \<Longrightarrow> eat ch (p @ s) k = map_sum (\<lambda>e. e) ((+) (length p)) (eat ch s (k - length p))"
  by (simp add: eat_def charCodeAt_shift)

lemma eatQuote_shift:
  "length p \<le> k \<Longrightarrow>
     eatQuote (p @ s) k = map_sum (\<lambda>e. e) (apsnd ((+) (length p))) (eatQuote s (k - length p))"
  by (simp add: eatQuote_def charCodeAt_shift split: option.splits)

lemma bindE_cong:
  "m = m' \<Longrightarrow> (\<And>x. m' = Inr x \<Longrightarrow> f x = f' x) \<Longrightarrow> bindE m f = bindE m' f'"
  by (cases m') simp_all

lemma bindE_map_sum: "bindE (map_sum (\<lambda>e. e) g m) f = bindE m (\<lambda>x. f (g x))"
  by (cases m) simp_all

lemma case_option_map: "(case map_option g x of None \<Rightarrow> a | Some y \<Rightarrow> b y) = (case x of None \<Rightarrow> a | Some y \<Rightarrow> b (g y))"
  by (cases x) simp_all

lemmas shift_simps = charCodeAt_shift substring_shift indexOf_shift eatSpaces_shift eatWord_shift
  eat_shift eatQuote_shift bindE_map_sum shiftP_bindE shiftP_if shiftP_option case_option_map split_beta
  comp_def Suc_diff_le add.assoc

lemma parseAttribute_shift:
  "parseAttribute (p @ s) (length p + beg) (length p + i) bld
     = shiftP (length p) (parseAttribute s beg i bld)"
  unfolding parseAttribute_def Let_def
  by (simp add: shift_simps cong: bindE_cong option.case_cong)

lemma parseAttribute_shift':
  "length p \<le> beg \<Longrightarrow> length p \<le> k \<Longrightarrow>
     parseAttribute (p @ s) beg k bld
       = shiftP (length p) (parseAttribute s (beg - length p) (k - length p) bld)"
  using parseAttribute_shift [of p s "beg - length p" "k - length p" bld] by simp

lemma scanText_shift_aux:
  "scanText (p @ s) (length p + i) val =
     map_sum (\<lambda>e. e) (apsnd (map_prod ((+) (length p)) ((+) (length p)))) (scanText s i val)"
proof (induction s i val rule: scanText.induct)
  case (1 str pos val)
  show ?case
    using "1.IH"
    by (subst scanText.simps, subst (2) scanText.simps)
       (auto simp: shift_simps add.assoc split: option.splits sum.splits)
qed

lemma scanText_shift:
  "length p \<le> k \<Longrightarrow> scanText (p @ s) k val =
     map_sum (\<lambda>e. e) (apsnd (map_prod ((+) (length p)) ((+) (length p)))) (scanText s (k - length p) val)"
  using scanText_shift_aux [of p s "k - length p" val] by simp

lemma parseContent_shift:
  "parseContent (p @ s) (length p + i) bld = shiftP (length p) (parseContent s i bld)"
  unfolding parseContent_def Let_def
  by (simp add: shift_simps scanText_shift cong: bindE_cong if_cong option.case_cong sum.case_cong)

lemma parseContent_shift':
  "length p \<le> k \<Longrightarrow>
     parseContent (p @ s) k bld = shiftP (length p) (parseContent s (k - length p) bld)"
  using parseContent_shift [of p s "k - length p" bld] by simp

lemma closingTag_shift:
  "closingTag (p @ s) (length p + i) bld = shiftP (length p) (closingTag s i bld)"
  unfolding closingTag_def Let_def
  by (simp add: shift_simps cong: bindE_cong if_cong option.case_cong sum.case_cong)

lemma exclam_shift:
  "exclam (p @ s) (length p + i) bld = shiftP (length p) (exclam s i bld)"
  unfolding exclam_def Let_def
  by (auto simp: shift_simps cong: bindE_cong if_cong option.case_cong sum.case_cong)

lemma closingTag_shift':
  "length p \<le> k \<Longrightarrow>
     closingTag (p @ s) k bld = shiftP (length p) (closingTag s (k - length p) bld)"
  using closingTag_shift [of p s "k - length p" bld] by simp

lemma exclam_shift':
  "length p \<le> k \<Longrightarrow>
     exclam (p @ s) k bld = shiftP (length p) (exclam s (k - length p) bld)"
  using exclam_shift [of p s "k - length p" bld] by simp

lemma tagLoop_shift_aux:
  "tagLoop (p @ s) (length p + i) bld = shiftP (length p) (tagLoop s i bld)"
proof (induction s i bld rule: tagLoop.induct)
  case (1 str pos0 bld)
  define pos where "pos = eatSpaces str pos0"
  define ch where "ch = charCodeAt str pos"
  have u1: "tagLoop str pos0 bld =
     (if ch = Some SLASH then
           bindE (eat GT str (pos + 1)) (\<lambda>pos.
           bindE (pop None bld) (\<lambda>bld. Inr (pos, bld)))
         else if begWord ch then
           (case parseAttribute str pos (pos + 1) bld of
              Inl e \<Rightarrow> Inl e
            | Inr (pos', bld') \<Rightarrow> tagLoop str pos' bld')
         else if ch = Some GT then parseContent str (pos + 1) bld
         else Inl (UnexpectedCharacter ch))"
    unfolding pos_def ch_def by (subst tagLoop.simps) (simp add: Let_def)
  have u2: "tagLoop (p @ str) (length p + pos0) bld =
     (if ch = Some SLASH then
           bindE (eat GT (p @ str) (length p + (pos + 1))) (\<lambda>pos.
           bindE (pop None bld) (\<lambda>bld. Inr (pos, bld)))
         else if begWord ch then
           (case parseAttribute (p @ str) (length p + pos) (length p + (pos + 1)) bld of
              Inl e \<Rightarrow> Inl e
            | Inr (pos', bld') \<Rightarrow> tagLoop (p @ str) pos' bld')
         else if ch = Some GT then parseContent (p @ str) (length p + (pos + 1)) bld
         else Inl (UnexpectedCharacter ch))"
    unfolding pos_def ch_def
    by (subst tagLoop.simps) (simp add: Let_def eatSpaces_shift charCodeAt_shift add.assoc)
  consider (slash) "ch = Some SLASH"
    | (atb) "ch \<noteq> Some SLASH" "begWord ch"
    | (gt) "ch \<noteq> Some SLASH" "\<not> begWord ch" "ch = Some GT"
    | (other) "ch \<noteq> Some SLASH" "\<not> begWord ch" "ch \<noteq> Some GT"
    by blast
  then show ?case
  proof cases
    case slash
    then show ?thesis
      by (simp add: u1 u2 shift_simps cong: bindE_cong)
  next
    case atb
    show ?thesis
    proof (cases "parseAttribute str pos (pos + 1) bld")
      case (Inl e)
      with atb show ?thesis by (simp add: u1 u2 parseAttribute_shift')
    next
      case (Inr r)
      obtain p1 b1 where r: "r = (p1, b1)" by (cases r)
      from "1.IH" [OF pos_def ch_def atb Inr [unfolded r] refl]
      have "tagLoop (p @ str) (length p + p1) b1 = shiftP (length p) (tagLoop str p1 b1)" .
      with atb Inr r show ?thesis by (simp add: u1 u2 parseAttribute_shift')
    qed
  next
    case gt
    then show ?thesis by (simp add: u1 u2 parseContent_shift')
  next
    case other
    then show ?thesis by (simp add: u1 u2)
  qed
qed

lemma tagLoop_shift:
  "length p \<le> k \<Longrightarrow>
     tagLoop (p @ s) k bld = shiftP (length p) (tagLoop s (k - length p) bld)"
  using tagLoop_shift_aux [of p s "k - length p" bld] by simp

lemma dispatch_shift_aux:
  "dispatch (p @ s) (length p + i) bld = shiftP (length p) (dispatch s i bld)"
  unfolding dispatch_def Let_def
  by (auto simp: shift_simps tagLoop_shift closingTag_shift' exclam_shift'
           cong: bindE_cong if_cong option.case_cong sum.case_cong)

lemma dispatch_shift:
  "length p \<le> k \<Longrightarrow>
     dispatch (p @ s) k bld = shiftP (length p) (dispatch s (k - length p) bld)"
  using dispatch_shift_aux [of p s "k - length p" bld] by simp

lemma bindE_shiftP: "bindE (shiftP n m) f = bindE m (\<lambda>x. f (n + fst x, snd x))"
  by (cases m) (auto simp: shiftP_def)

lemma step_shift:
  "step (p @ s) (length p + i) bld = shiftP (length p) (step s i bld)"
  unfolding step_def
  by (auto simp: shift_simps dispatch_shift bindE_shiftP cong: bindE_cong)

lemma mainLoop_shift:
  "mainLoop (p @ s) (length p + i) bld = mainLoop s i bld"
proof (induction s i bld rule: mainLoop.induct)
  case (1 str pos bld)
  note u = mainLoop.simps [of "p @ str" "length p + pos" bld] mainLoop.simps [of str pos bld]
  show ?case
  proof (cases "pos < length str")
    case False
    then show ?thesis by (simp add: u)
  next
    case True
    show ?thesis
    proof (cases "step str pos bld")
      case (Inl e)
      with True show ?thesis by (simp add: u step_shift)
    next
      case (Inr r)
      obtain p1 b1 where r: "r = (p1, b1)" by (cases r)
      from "1.IH" [OF True Inr [unfolded r] refl]
      have "mainLoop (p @ str) (length p + p1) b1 = mainLoop str p1 b1" .
      with True Inr r show ?thesis by (simp add: u step_shift)
    qed
  qed
qed

lemma findSub_append_notin:
  "c \<notin> set p \<Longrightarrow>
     findSub [c] (p @ x) = (case findSub [c] x of None \<Rightarrow> None | Some k \<Rightarrow> Some (length p + k))"
  by (induction p) (auto split: option.splits)

lemma indexOf_prefix:
  "c \<notin> set p \<Longrightarrow>
     indexOf [c] (p @ x) 0 = (case indexOf [c] x 0 of None \<Rightarrow> None | Some k \<Rightarrow> Some (length p + k))"
  by (simp add: indexOf_def findSub_append_notin split: option.splits)

lemma parse_skips_prefix: "LT \<notin> set p \<Longrightarrow> parse (p @ x) = parse x"
  by (cases "indexOf [LT] x 0") (simp_all add: parse_def indexOf_prefix mainLoop_shift)

lemma findSub_notin: "c \<notin> set s \<Longrightarrow> findSub [c] s = None"
  by (induction s) auto

lemma parse_no_LT: "LT \<notin> set s \<Longrightarrow> parse s = Inl (Expected LT None)"
  by (simp add: parse_def indexOf_def findSub_notin)

text \<open>
  C9 (implicit). parse skips everything before the first \<open><\<close> of the input: for every
  \<open>p\<close> without \<open><\<close>, with or without non-whitespace characters, and every text \<open>x\<close>
  that parses to a tree, \<open>parse(p + x)\<close> succeeds with the same tree; an input with no
  \<open><\<close> at all fails with a parse error.
\<close>

theorem parse_skips_before_first_tag:
  "(LT \<notin> set p \<and> parse x = Inr t \<longrightarrow> parse (p @ x) = Inr t)
   \<and> (LT \<notin> set s \<longrightarrow> (\<exists>e. parse s = Inl e))"
  by (simp add: parse_skips_prefix parse_no_LT)

theorem parse_skips_before_first_tag_witness:
  "LT \<notin> set (js ''hello '') \<and> parse (js ''<a/>'') = Inr (Obj [(js ''a'', Obj [])])
   \<and> parse (js ''hello '' @ js ''<a/>'') = Inr (Obj [(js ''a'', Obj [])])
   \<and> LT \<notin> set (js ''hello'') \<and> (\<exists>e. parse (js ''hello'') = Inl e)"
proof -
  have h1: "LT \<notin> set (js ''hello '')" by code_simp
  have h2: "parse (js ''<a/>'') = Inr (Obj [(js ''a'', Obj [])])" by code_simp
  have h3: "LT \<notin> set (js ''hello'')" by code_simp
  from parse_skips_before_first_tag [of "js ''hello ''" "js ''<a/>''" "Obj [(js ''a'', Obj [])]" "js ''hello''"]
    h1 h2 h3
  show ?thesis by blast
qed

subsection \<open>The content of an element\<close>





























section \<open>Properties of the serializer\<close>

text \<open>
  C8. The claim: stringify fails in exactly these structural cases, among them a node
  that carries \<open>$value\<close> together with \<open>$cdata\<close>. The code tests the \<open>$cdata\<close> beside
  a \<open>$value\<close> for truthiness (\<open>if (elt.$cdata)\<close>), where the branch below and the
  builder test \<open>elt.$cdata != null\<close>: a node with a \<open>$value\<close> and the empty CDATA
  section \<open>$cdata: ""\<close>, which parse produces for \<open><![CDATA[]]>\<close>, is serialized
  without an error, and the CDATA section is dropped. The other cases of the claim do
  fail, as the last two conjuncts show at the inputs of the specification.
\<close>

theorem stringify_value_with_empty_cdata:
  "stringify (Obj [(js ''a'', Obj [(js ''$value'', Str (js ''x'')), (js ''$cdata'', Str [])])]) None
     = Inr (js ''<a>x</a>'')
   \<and> stringify (Obj [(js ''a'', Obj [(js ''$value'', Str (js ''x'')),
                                      (js ''$cdata'', Str (js ''y''))])]) None
     = Inl CannotMixValueAndCdataS
   \<and> stringify (Obj [(js ''a'', Obj [(js ''$value'', Str (js ''x'')),
                                      (js ''b'', Str (js ''y''))])]) None
     = Inl CannotMixValueAndChildrenS"
  by code_simp

section \<open>Properties of the namespace normalizer\<close>

text \<open>
  The children of an object in the order in which \<open>_normalizeNamespaces\<close> visits them:
  key by key in the enumeration order of the object, the items of an array one after
  the other. \<open>resolvedChildren\<close> pairs each child's qualified name with its normalized
  value, \<open>valuesAt q\<close> selects the values of one qualified name, and \<open>sequenceOf\<close> is
  the entry they are to form: the bare value of a single child, the array of several.
\<close>

definition childEntries :: "props \<Rightarrow> (jsstring \<times> jsval) list" where
  "childEntries kvs =
     concat (map (\<lambda>(b, val).
        if take 1 b = js ''$'' \<or> b = [] then []
        else (case val of Arr items \<Rightarrow> map (Pair b) items | _ \<Rightarrow> [(b, val)])) kvs)"

definition resolve :: "props \<Rightarrow> jsstring \<times> jsval \<Rightarrow> (jsstring \<times> jsval) option" where
  "resolve ns e =
     (case normalizeNamespaces' (snd e) ns of
        None \<Rightarrow> None
      | Some (ns', r) \<Rightarrow> map_option (\<lambda>key. (key, r)) (qualify ns' (fst e)))"

definition resolvedChildren :: "props \<Rightarrow> props \<Rightarrow> (jsstring \<times> jsval) list option" where
  "resolvedChildren kvs ns0 =
     (case nsAttributes (getProp kvs (js ''$'')) ns0 of
        None \<Rightarrow> None
      | Some (ns, res0, ov) \<Rightarrow> those (map (resolve ns) (childEntries kvs)))"

definition valuesAt :: "jsstring \<Rightarrow> (jsstring \<times> jsval) list \<Rightarrow> jsval list" where
  "valuesAt q rs = map snd (filter (\<lambda>e. fst e = q) rs)"

fun sequenceOf :: "jsval list \<Rightarrow> jsval" where
  "sequenceOf [] = Undefined"
| "sequenceOf [r] = r"
| "sequenceOf rs = Arr rs"

fun putAll :: "props \<Rightarrow> (jsstring \<times> jsval) list \<Rightarrow> props option" where
  "putAll res [] = Some res"
| "putAll res (e # rs) =
     (case putEntry res (fst e) (snd e) of None \<Rightarrow> None | Some res' \<Rightarrow> putAll res' rs)"

lemma putAll_append:
  "putAll res (xs @ ys) = (case putAll res xs of None \<Rightarrow> None | Some r \<Rightarrow> putAll r ys)"
  by (induction xs arbitrary: res) (simp_all split: option.splits)

lemma those_append:
  "those (xs @ ys) = (case those xs of None \<Rightarrow> None | Some a \<Rightarrow> map_option ((@) a) (those ys))"
proof (induction xs)
  case Nil
  show ?case by (cases "those ys") simp_all
next
  case (Cons x xs)
  then show ?case by (cases x; cases "those xs"; cases "those ys") simp_all
qed

lemma normItems_Some:
  "normItems ns name items (res, ov) = Some (R, ov') \<Longrightarrow>
     \<exists>rs. those (map (\<lambda>item. resolve ns (name, item)) items) = Some rs
        \<and> putAll res rs = Some R \<and> ov' = (ov \<and> items = [])"
proof (induction items arbitrary: res ov)
  case Nil
  then show ?case by simp
next
  case (Cons item items)
  from Cons.prems obtain ns' r key res' where n: "normalizeNamespaces' item ns = Some (ns', r)"
    and k: "qualify ns' name = Some key"
    and p: "putEntry res key r = Some res'"
    and t: "normItems ns name items (res', False) = Some (R, ov')"
    by (auto split: option.splits)
  from Cons.IH [OF t] obtain rs where rs: "those (map (\<lambda>item. resolve ns (name, item)) items) = Some rs"
    and pa: "putAll res' rs = Some R" and o: "ov' = False" by auto
  from n k have "resolve ns (name, item) = Some (key, r)" by (simp add: resolve_def)
  with rs pa p o show ?case by simp
qed

lemma normEntries_Some:
  "normEntries ns kvs (res, ov) = Some (R, ov') \<Longrightarrow>
     \<exists>rs. those (map (resolve ns) (childEntries kvs)) = Some rs
        \<and> putAll res rs = Some R \<and> ov' = (ov \<and> childEntries kvs = [])"
proof (induction kvs arbitrary: res ov)
  case Nil
  then show ?case by (simp add: childEntries_def)
next
  case (Cons kv kvs)
  obtain b val where kv: "kv = (b, val)" by (cases kv)
  show ?case
  proof (cases "take 1 b = js ''$'' \<or> b = []")
    case True
    with Cons kv show ?thesis by (simp add: childEntries_def)
  next
    case False
    define items where "items = (case val of Arr xs \<Rightarrow> xs | _ \<Rightarrow> [val])"
    have ce: "childEntries (kv # kvs) = map (Pair b) items @ childEntries kvs"
      using False kv by (cases val) (simp_all add: childEntries_def items_def)
    from Cons.prems False kv obtain st where i: "normItems ns b items (res, ov) = Some st"
      and e: "normEntries ns kvs st = Some (R, ov')"
      by (cases val) (auto simp: items_def split: option.splits)
    obtain R1 o1 where st: "st = (R1, o1)" by (cases st)
    from normItems_Some [OF i [unfolded st]] obtain rs1
      where r1: "those (map (\<lambda>item. resolve ns (b, item)) items) = Some rs1"
        and p1: "putAll res rs1 = Some R1" and o1: "o1 = (ov \<and> items = [])" by auto
    from Cons.IH [OF e [unfolded st]] obtain rs2
      where r2: "those (map (resolve ns) (childEntries kvs)) = Some rs2"
        and p2: "putAll R1 rs2 = Some R" and o2: "ov' = (o1 \<and> childEntries kvs = [])" by auto
    have "those (map (resolve ns) (childEntries (kv # kvs))) = Some (rs1 @ rs2)"
      using r1 r2 by (simp add: ce those_append comp_def)
    moreover have "putAll res (rs1 @ rs2) = Some R"
      using p1 p2 by (simp add: putAll_append)
    moreover have "ov' = (ov \<and> childEntries (kv # kvs) = [])"
      using o1 o2 by (simp add: ce)
    ultimately show ?thesis by blast
  qed
qed

lemma putP_other:
  "putP kvs k v = Some kvs' \<Longrightarrow> k \<noteq> q \<Longrightarrow> getProp kvs' q = getProp kvs q"
  by (auto simp: putP_def getProp_setProp split: if_splits)

lemma putEntry_other:
  "putEntry res k r = Some res' \<Longrightarrow> k \<noteq> q \<Longrightarrow> getProp res' q = getProp res q"
  by (auto simp: putEntry_def Let_def getProp_setProp split: if_splits jsval.splits
      dest: putP_other)

lemma putEntry_own:
  "inherited q = Undefined \<Longrightarrow>
     putEntry res q r = Some (let tmp = getProp res q
        in if truthy tmp
           then (case tmp of Arr xs \<Rightarrow> setProp res q (Arr (xs @ [r]))
                 | _ \<Rightarrow> setProp res q (Arr [tmp, r]))
           else setProp res q r)"
  by (simp add: putEntry_def getP_own putP_own Let_def split: jsval.splits)

lemma putAll_getProp:
  assumes "putAll res rs = Some R"
      and "\<forall>r \<in> set (valuesAt q rs). truthy r \<and> \<not> isArray r"
      and "\<forall>r \<in> set pre. truthy r \<and> \<not> isArray r"
      and "getProp res q = sequenceOf pre"
      and "inherited q = Undefined"
  shows "getProp R q = sequenceOf (pre @ valuesAt q rs)"
  using assms(1-4)
proof (induction rs arbitrary: res pre)
  case Nil
  then show ?case by (simp add: valuesAt_def)
next
  case (Cons e rs)
  from Cons.prems(1) obtain res' where pe: "putEntry res (fst e) (snd e) = Some res'"
    and pa: "putAll res' rs = Some R"
    by (auto split: option.splits)
  show ?case
  proof (cases "fst e = q")
    case False
    then have "getProp res' q = sequenceOf pre"
      using putEntry_other [OF pe False] Cons.prems(4) by simp
    moreover from False have "valuesAt q (e # rs) = valuesAt q rs"
      by (simp add: valuesAt_def)
    ultimately show ?thesis using Cons.IH [OF pa _ Cons.prems(3)] Cons.prems(2)
      by simp
  next
    case True
    then have v: "valuesAt q (e # rs) = snd e # valuesAt q rs"
      by (simp add: valuesAt_def)
    with Cons.prems have e: "truthy (snd e)" "\<not> isArray (snd e)" by simp_all
    from pe True have pe': "res' = (let tmp = getProp res q
        in if truthy tmp
           then (case tmp of Arr xs \<Rightarrow> setProp res q (Arr (xs @ [snd e]))
                 | _ \<Rightarrow> setProp res q (Arr [tmp, snd e]))
           else setProp res q (snd e))"
      by (simp add: putEntry_own [OF assms(5)])
    have g: "getProp res' q = sequenceOf (pre @ [snd e])"
    proof (cases pre)
      case Nil
      with Cons.prems(4) show ?thesis
        by (simp add: pe' getProp_setProp)
    next
      case (Cons p ps)
      note pre = this
      show ?thesis
      proof (cases ps)
        case Nil
        with pre Cons.prems(3,4) show ?thesis
          by (cases p) (simp_all add: pe' getProp_setProp)
      next
        case (Cons p' ps')
        with pre Cons.prems(4) show ?thesis
          by (simp add: pe' getProp_setProp)
      qed
    qed
    have p: "\<forall>r \<in> set (pre @ [snd e]). truthy r \<and> \<not> isArray r"
      using Cons.prems(3) e by simp
    have r: "\<forall>r \<in> set (valuesAt q rs). truthy r \<and> \<not> isArray r"
      using Cons.prems(2) v by simp
    from Cons.IH [OF pa r p g] v show ?thesis by simp
  qed
qed

lemma bar_in_js: "(0x7C :: jschar) \<in> set (x @ js ''|'' @ y)"
proof -
  have "js ''|'' = [0x7C]" by code_simp
  then show ?thesis by simp
qed

lemma qualify_not_special:
  assumes "qualify ns b = Some key" and "take 1 b \<noteq> js ''$''"
  shows "key \<noteq> js ''$''" and "key \<noteq> js ''$value''"
proof -
  have n1: "(0x7C :: jschar) \<notin> set (js ''$'')" by code_simp
  have n2: "(0x7C :: jschar) \<notin> set (js ''$value'')" by code_simp
  have t: "take 1 (js ''$value'') = js ''$''" by code_simp
  have b1: "b \<noteq> js ''$''" using assms(2) by auto
  have b2: "b \<noteq> js ''$value''" using assms(2) t by auto
  from assms(1) consider (p) uri where "key = uri @ js ''|'' @ part1 (split 0x3A b)"
    | (d) uri where "key = uri @ js ''|'' @ b"
    | (n) "key = b"
    by (auto simp: qualify_def Let_def split: if_splits)
  then have "key \<noteq> js ''$'' \<and> key \<noteq> js ''$value''"
  proof cases
    case p
    then have "0x7C \<in> set key" by (simp only: bar_in_js)
    with n1 n2 show ?thesis by metis
  next
    case d
    then have "0x7C \<in> set key" by (simp only: bar_in_js)
    with n1 n2 show ?thesis by metis
  next
    case n
    with b1 b2 show ?thesis by simp
  qed
  then show "key \<noteq> js ''$''" and "key \<noteq> js ''$value''" by simp_all
qed

lemma childEntries_key:
  assumes "e \<in> set (childEntries kvs)"
  shows "take 1 (fst e) \<noteq> js ''$''"
proof -
  from assms obtain b val where ne: "\<not> (take 1 b = js ''$'' \<or> b = [])"
    and e: "e \<in> set (case val of Arr items \<Rightarrow> map (Pair b) items | _ \<Rightarrow> [(b, val)])"
    by (auto simp: childEntries_def split: if_splits)
  from e have "fst e = b" by (cases val) auto
  with ne show ?thesis by simp
qed

lemma nsAttributes_result:
  "nsAttributes atts ns0 = Some (ns, res0, ov) \<Longrightarrow> q \<noteq> js ''$'' \<Longrightarrow> getProp res0 q = Undefined"
  by (auto simp: nsAttributes_def Let_def getProp_def split: if_splits prod.splits option.splits)

lemma those_map_set:
  "those (map f xs) = Some ys \<Longrightarrow> y \<in> set ys \<Longrightarrow> \<exists>x \<in> set xs. f x = Some y"
proof (induction xs arbitrary: ys)
  case Nil
  then show ?case by simp
next
  case (Cons x xs)
  then show ?case by (auto split: option.splits)
qed

text \<open>
  C2. The claim: sibling children of one parent whose tag names resolve to the same
  \<open>uri|localname\<close> key are merged into one sequence in document order, even when
  interleaved with siblings of other tag names, and the example
  \<open><a xmlns="abc">1</a><x:a>2</x:a><a xmlns="def">3</a><a xmlns="abc">4</a>\<close> under
  \<open>xmlns:x="abc"\<close> yields \<open>["1","2","4"]\<close> under \<open>abc|a\<close>. The code yields
  \<open>["1","4","2"]\<close>, as the repository's own test expects: parse has already grouped
  the children by tag name, and the normalizer visits the parent's keys one after the
  other.
\<close>

theorem normalize_document_order_counterexample:
  "map_sum id normalizeNamespaces
     (parse (js ''<t xmlns:x=\"abc\"><a xmlns=\"abc\">1</a><x:a>2</x:a><a xmlns=\"def\">3</a><a xmlns=\"abc\">4</a></t>''))
   = Inr (Some (Obj [(js ''t'',
          Obj [(js ''abc|a'', Arr [Str (js ''1''), Str (js ''4''), Str (js ''2'')]),
               (js ''def|a'', Str (js ''3''))])]))
   \<and> map_sum id normalizeNamespaces
     (parse (js ''<t xmlns:x=\"abc\"><a xmlns=\"abc\">1</a><x:a>2</x:a><a xmlns=\"def\">3</a><a xmlns=\"abc\">4</a></t>''))
   \<noteq> Inr (Some (Obj [(js ''t'',
          Obj [(js ''abc|a'', Arr [Str (js ''1''), Str (js ''2''), Str (js ''4'')]),
               (js ''def|a'', Str (js ''3''))])]))"
proof -
  have e: "map_sum id normalizeNamespaces
     (parse (js ''<t xmlns:x=\"abc\"><a xmlns=\"abc\">1</a><x:a>2</x:a><a xmlns=\"def\">3</a><a xmlns=\"abc\">4</a></t>''))
   = Inr (Some (Obj [(js ''t'',
          Obj [(js ''abc|a'', Arr [Str (js ''1''), Str (js ''4''), Str (js ''2'')]),
               (js ''def|a'', Str (js ''3''))])]))"
    by code_simp
  have d: "js ''4'' \<noteq> js ''2''" by code_simp
  show ?thesis unfolding e using d by simp
qed

text \<open>
  C2, amended. For every object whose normalization stays within the model (no
  assignment replaces a prototype and no binding is converted to a string by a method
  of its own), with the qualified names and normalized values
  \<open>rs\<close> of its children in the order in which the parent's keys are visited (tag name
  by tag name as the parent enumerates its keys, and in document order within one tag
  name), and for every qualified name \<open>q\<close> among them that is no property name of
  \<open>Object.prototype\<close>: when the values of the children that resolve to \<open>q\<close> are
  truthy and no arrays (in a parsed tree: no empty strings), the result holds under
  \<open>q\<close> the bare value of the single such child, or the sequence of all of them in
  the order of \<open>rs\<close>.
\<close>

theorem normalize_merges_same_key:
  assumes "normalizeNamespaces' (Obj kvs) ns0 = Some (ns, v)"
      and "resolvedChildren kvs ns0 = Some rs"
      and "q \<in> fst ` set rs"
      and "\<forall>r \<in> set (valuesAt q rs). truthy r \<and> \<not> isArray r"
      and "q \<notin> set objectPrototypeNames"
  shows "\<exists>R. v = Obj R \<and> getProp R q = sequenceOf (valuesAt q rs)"
proof -
  from assms(1) obtain ns1 res0 ov where a: "nsAttributes (getProp kvs (js ''$'')) ns0 = Some (ns1, res0, ov)"
    by (auto split: option.splits)
  from assms(1) a obtain R ov' where n: "normEntries ns1 kvs (res0, ov) = Some (R, ov')"
    by (auto split: option.splits)
  from assms(2) a have rs: "those (map (resolve ns1) (childEntries kvs)) = Some rs"
    by (simp add: resolvedChildren_def)
  from normEntries_Some [OF n] rs have pa: "putAll res0 rs = Some R"
    and o: "ov' = (ov \<and> childEntries kvs = [])" by auto
  from assms(3) obtain y where y: "y \<in> set rs" and q: "q = fst y" by auto
  from those_map_set [OF rs y] obtain e where e: "e \<in> set (childEntries kvs)"
    and r: "resolve ns1 e = Some y" by auto
  from r obtain ns' where "qualify ns' (fst e) = Some (fst y)"
    by (auto simp: resolve_def split: option.splits)
  from qualify_not_special [OF this childEntries_key [OF e]] q
  have "q \<noteq> js ''$''" "q \<noteq> js ''$value''" by simp_all
  from e o have ov': "\<not> ov'" by auto
  have i: "inherited q = Undefined" using assms(5) by (rule inherited_none)
  have "getProp res0 q = sequenceOf []"
    using nsAttributes_result [OF a \<open>q \<noteq> js ''$''\<close>] by simp
  from putAll_getProp [OF pa assms(4) _ this i]
  have g: "getProp R q = sequenceOf (valuesAt q rs)" by simp
  show ?thesis
  proof (cases "getProp kvs (js ''$value'') = Undefined")
    case True
    with assms(1) a n have "v = Obj R" by (simp add: Let_def)
    with g show ?thesis by simp
  next
    case False
    with assms(1) a n ov' have "v = Obj (setProp R (js ''$value'') (getProp kvs (js ''$value'')))"
      by (simp add: Let_def)
    with g \<open>q \<noteq> js ''$value''\<close> show ?thesis by (simp add: getProp_setProp)
  qed
qed

theorem normalize_merges_same_key_witness:
  "resolvedChildren
       [(js ''$'', Obj [(js ''xmlns:x'', Str (js ''abc''))]),
        (js ''a'', Arr [Obj [(js ''$'', Obj [(js ''xmlns'', Str (js ''abc''))]), (js ''$value'', Str (js ''1''))],
                        Obj [(js ''$'', Obj [(js ''xmlns'', Str (js ''def''))]), (js ''$value'', Str (js ''3''))],
                        Obj [(js ''$'', Obj [(js ''xmlns'', Str (js ''abc''))]), (js ''$value'', Str (js ''4''))]]),
        (js ''x:a'', Str (js ''2''))] []
     = Some [(js ''abc|a'', Str (js ''1'')), (js ''def|a'', Str (js ''3'')),
             (js ''abc|a'', Str (js ''4'')), (js ''abc|a'', Str (js ''2''))]
   \<and> js ''abc|a'' \<notin> set objectPrototypeNames
   \<and> (\<exists>R. normalizeNamespaces' (Obj
       [(js ''$'', Obj [(js ''xmlns:x'', Str (js ''abc''))]),
        (js ''a'', Arr [Obj [(js ''$'', Obj [(js ''xmlns'', Str (js ''abc''))]), (js ''$value'', Str (js ''1''))],
                        Obj [(js ''$'', Obj [(js ''xmlns'', Str (js ''def''))]), (js ''$value'', Str (js ''3''))],
                        Obj [(js ''$'', Obj [(js ''xmlns'', Str (js ''abc''))]), (js ''$value'', Str (js ''4''))]]),
        (js ''x:a'', Str (js ''2''))]) [] = Some ([(js ''x'', Str (js ''abc''))], Obj R)
        \<and> getProp R (js ''abc|a'') = Arr [Str (js ''1''), Str (js ''4''), Str (js ''2'')])"
proof -
  let ?kvs = "[(js ''$'', Obj [(js ''xmlns:x'', Str (js ''abc''))]),
        (js ''a'', Arr [Obj [(js ''$'', Obj [(js ''xmlns'', Str (js ''abc''))]), (js ''$value'', Str (js ''1''))],
                        Obj [(js ''$'', Obj [(js ''xmlns'', Str (js ''def''))]), (js ''$value'', Str (js ''3''))],
                        Obj [(js ''$'', Obj [(js ''xmlns'', Str (js ''abc''))]), (js ''$value'', Str (js ''4''))]]),
        (js ''x:a'', Str (js ''2''))]"
  let ?rs = "[(js ''abc|a'', Str (js ''1'')), (js ''def|a'', Str (js ''3'')),
             (js ''abc|a'', Str (js ''4'')), (js ''abc|a'', Str (js ''2''))]"
  let ?v = "Obj [(js ''abc|a'', Arr [Str (js ''1''), Str (js ''4''), Str (js ''2'')]),
                 (js ''def|a'', Str (js ''3''))]"
  have h1: "normalizeNamespaces' (Obj ?kvs) [] = Some ([(js ''x'', Str (js ''abc''))], ?v)"
    by code_simp
  have h2: "resolvedChildren ?kvs [] = Some ?rs" by code_simp
  have h3: "js ''abc|a'' \<in> fst ` set ?rs" by code_simp
  have v: "valuesAt (js ''abc|a'') ?rs = [Str (js ''1''), Str (js ''4''), Str (js ''2'')]"
    by code_simp
  have h4: "\<forall>r \<in> set (valuesAt (js ''abc|a'') ?rs). truthy r \<and> \<not> isArray r"
    by code_simp
  have h5: "js ''abc|a'' \<notin> set objectPrototypeNames" by code_simp
  from normalize_merges_same_key [OF h1 h2 h3 h4 h5] v h1 h2 h5 show ?thesis by simp
qed

section \<open>The escaping policy\<close>

text \<open>
  The words of the specification: the five special characters, the ranges of the code
  units that are written verbatim, and the lower-case hexadecimal digits.
\<close>

definition isSpecial :: "jschar \<Rightarrow> bool" where
  "isSpecial c = (c \<in> set [0x26, 0x3C, 0x3E, 0x22, 0x27])"

definition inSafeRange :: "jschar \<Rightarrow> bool" where
  "inSafeRange c =
     ((0x20 \<le> c \<and> c \<le> 0x7E) \<or> (0xA1 \<le> c \<and> c \<le> 0xD7FF) \<or> (0xE000 \<le> c \<and> c \<le> 0xFFFD))"

definition lowerHexDigit :: "jschar \<Rightarrow> bool" where
  "lowerHexDigit d = (d \<in> set (js ''0123456789abcdef''))"

lemma replaceEscape_concat: "replaceEscape s = concat (map (\<lambda>c. replaceEscape [c]) s)"
  by (induction s) simp_all

lemma digitChar_facts:
  "\<forall>d \<in> set [0..<16]. digitVal (digitChar d) = Some d \<and> lowerHexDigit (digitChar d)"
  by code_simp

lemma digitChar_val: "d < 16 \<Longrightarrow> digitVal (digitChar d) = Some d"
  using digitChar_facts by simp

lemma digitChar_lower: "d < 16 \<Longrightarrow> lowerHexDigit (digitChar d)"
  using digitChar_facts by simp

lemma zero_facts: "digitVal 0x30 = Some 0 \<and> lowerHexDigit 0x30"
  by code_simp

lemma toStringRadix_small: "n < 16 \<Longrightarrow> toStringRadix 16 n = [digitChar n]"
  by (subst toStringRadix.simps) simp

lemma toStringRadix_step:
  "16 \<le> n \<Longrightarrow> toStringRadix 16 n = toStringRadix 16 (n div 16) @ [digitChar (n mod 16)]"
  by (subst toStringRadix.simps) simp

lemma pad2_1: "pad2 [a] = [0x30, a]"
  by (simp add: pad2.simps)

lemma pad2_ge: "2 \<le> length h \<Longrightarrow> pad2 h = h"
  by (subst pad2.simps) simp

lemma pad4_3: "pad4 [a, b, c] = [0x30, a, b, c]"
  by (simp add: pad4.simps)

lemma pad4_2: "pad4 [a, b] = [a, b]"
  by (simp add: pad4.simps)

lemma pad4_4: "pad4 [a, b, c, d] = [a, b, c, d]"
  by (simp add: pad4.simps)

definition hexOf :: "nat \<Rightarrow> jsstring" where
  "hexOf n = pad4 (pad2 (toStringRadix 16 n))"

lemma hexOf_props:
  assumes "n < 65536"
  shows "(\<forall>d \<in> set (hexOf n). lowerHexDigit d) \<and> digitsValue 16 (hexOf n) = n
         \<and> length (hexOf n) = (if n < 256 then 2 else 4)"
proof -
  consider (a) "n < 16" | (b) "16 \<le> n" "n < 256" | (c) "256 \<le> n" "n < 4096" | (d) "4096 \<le> n"
    by linarith
  then show ?thesis
  proof cases
    case a
    then have "hexOf n = [0x30, digitChar n]"
      by (simp add: hexOf_def toStringRadix_small pad2_1 pad4_2)
    with a show ?thesis
      by (simp add: digitsValue_def digitChar_val digitChar_lower zero_facts)
  next
    case b
    then have "n div 16 < 16" by simp
    with b have "hexOf n = [digitChar (n div 16), digitChar (n mod 16)]"
      by (simp add: hexOf_def toStringRadix_small toStringRadix_step pad2_ge pad4_2)
    with b \<open>n div 16 < 16\<close> show ?thesis
      by (simp add: digitsValue_def digitChar_val digitChar_lower)
  next
    case c
    then have 1: "16 \<le> n" "16 \<le> n div 16" "n div 16 div 16 < 16" by simp_all
    then have "hexOf n = [0x30, digitChar (n div 16 div 16), digitChar (n div 16 mod 16), digitChar (n mod 16)]"
      by (simp add: hexOf_def toStringRadix_small toStringRadix_step pad2_ge pad4_3)
    with c 1 show ?thesis
      by (simp add: digitsValue_def digitChar_val digitChar_lower zero_facts)
  next
    case d
    with assms have 1: "16 \<le> n" "16 \<le> n div 16" "16 \<le> n div 16 div 16" "n div 16 div 16 div 16 < 16"
      by simp_all
    then have "hexOf n = [digitChar (n div 16 div 16 div 16), digitChar (n div 16 div 16 mod 16),
        digitChar (n div 16 mod 16), digitChar (n mod 16)]"
      by (simp add: hexOf_def toStringRadix_small toStringRadix_step pad2_ge pad4_4)
    with d 1 show ?thesis
      by (simp add: digitsValue_def digitChar_val digitChar_lower)
  qed
qed

lemma escapeMatches_iff: "escapeMatches c \<longleftrightarrow> isSpecial c \<or> \<not> inSafeRange c"
  by (simp add: escapeMatches_def isSpecial_def inSafeRange_def)

lemma special_inSafeRange: "isSpecial c \<Longrightarrow> inSafeRange c"
  by (auto simp: isSpecial_def inSafeRange_def)

lemma escapeChar_numeric:
  "\<not> isSpecial c \<Longrightarrow> escapeChar c = js ''&#x'' @ hexOf (unat c) @ js '';''"
  by (simp add: escapeChar_def entitiesByChar_def isSpecial_def hexOf_def)

text \<open>
  C5. \<open>escape\<close> works code unit by code unit. The five specials \<open>& < > " '\<close> are
  written as their named entities; a code unit in one of the ranges \<open>0x20-0x7E\<close>,
  \<open>0xA1-0xD7FF\<close>, \<open>0xE000-0xFFFD\<close> that is no special is written verbatim; every
  other code unit is written as \<open>&#x...;\<close> with lower-case hexadecimal digits whose
  value is the code unit, zero-padded to an even length of at least 2 (two digits below
  \<open>0x100\<close>, four otherwise).
\<close>

theorem escape_policy:
  "escape (Str s) = concat (map (\<lambda>c. escape (Str [c])) s)
   \<and> escape (Str [0x26]) = js ''&amp;''
   \<and> escape (Str [0x3C]) = js ''&lt;''
   \<and> escape (Str [0x3E]) = js ''&gt;''
   \<and> escape (Str [0x22]) = js ''&quot;''
   \<and> escape (Str [0x27]) = js ''&apos;''
   \<and> (inSafeRange c \<and> \<not> isSpecial c \<longrightarrow> escape (Str [c]) = [c])
   \<and> (\<not> inSafeRange c \<longrightarrow>
        (\<exists>h. escape (Str [c]) = js ''&#x'' @ h @ js '';''
           \<and> (\<forall>d \<in> set h. lowerHexDigit d)
           \<and> digitsValue 16 h = unat c
           \<and> even (length h) \<and> 2 \<le> length h
           \<and> length h = (if unat c < 0x100 then 2 else 4)))"
proof (intro conjI impI)
  show "escape (Str s) = concat (map (\<lambda>c. escape (Str [c])) s)"
    using replaceEscape_concat [of s] by (simp add: escape_def)
  show "escape (Str [0x26]) = js ''&amp;''" by code_simp
  show "escape (Str [0x3C]) = js ''&lt;''" by code_simp
  show "escape (Str [0x3E]) = js ''&gt;''" by code_simp
  show "escape (Str [0x22]) = js ''&quot;''" by code_simp
  show "escape (Str [0x27]) = js ''&apos;''" by code_simp
  show "escape (Str [c]) = [c]" if "inSafeRange c \<and> \<not> isSpecial c"
    using that by (simp add: escape_def escapeMatches_iff)
  show "\<exists>h. escape (Str [c]) = js ''&#x'' @ h @ js '';''
           \<and> (\<forall>d \<in> set h. lowerHexDigit d)
           \<and> digitsValue 16 h = unat c
           \<and> even (length h) \<and> 2 \<le> length h
           \<and> length h = (if unat c < 0x100 then 2 else 4)" if n: "\<not> inSafeRange c"
  proof -
    from n have ns: "\<not> isSpecial c" using special_inSafeRange by blast
    have "unat c < 2 ^ LENGTH(16)" by (rule unsigned_less)
    then have "unat c < 65536" by simp
    from hexOf_props [OF this] n ns show ?thesis
      by (intro exI [of _ "hexOf (unat c)"])
         (simp add: escape_def escapeMatches_iff escapeChar_numeric)
  qed
qed

theorem escape_policy_witness:
  "inSafeRange 0x61 \<and> \<not> isSpecial 0x61 \<and> escape (Str [0x61]) = [0x61]
   \<and> \<not> inSafeRange 0x0A
   \<and> (\<exists>h. escape (Str [0x0A]) = js ''&#x'' @ h @ js '';''
         \<and> (\<forall>d \<in> set h. lowerHexDigit d) \<and> digitsValue 16 h = 10 \<and> length h = 2)"
proof -
  have h1: "inSafeRange 0x61 \<and> \<not> isSpecial 0x61" by code_simp
  have h2: "\<not> inSafeRange 0x0A" by code_simp
  have u: "unat (0x0A :: jschar) = 10" by simp
  from escape_policy [of "[]" "0x61"] h1 have a: "escape (Str [0x61]) = [0x61]" by blast
  from escape_policy [of "[]" "0x0A"] h2 u
  have "\<exists>h. escape (Str [0x0A]) = js ''&#x'' @ h @ js '';''
         \<and> (\<forall>d \<in> set h. lowerHexDigit d) \<and> digitsValue 16 h = 10 \<and> length h = 2"
    by auto
  with h1 h2 a show ?thesis by blast
qed

section \<open>Parsing the text of a document\<close>

subsection \<open>Escaped text decodes to itself\<close>

lemma roundDouble_small: "n < 2 ^ 53 \<Longrightarrow> roundDouble n = n"
proof -
  assume n: "n < 2 ^ 53"
  have "bitlen m \<le> k" if "m < 2 ^ k" for m k
    using that
  proof (induction m arbitrary: k rule: bitlen.induct)
    case (1 m)
    show ?case
    proof (cases "m = 0")
      case True
      then show ?thesis by (simp add: bitlen.simps [of 0])
    next
      case False
      then obtain k' where k: "k = Suc k'" using "1.prems" by (cases k) auto
      with "1.prems" have "m div 2 < 2 ^ k'" by auto
      from "1.IH" [OF False this] False k show ?thesis by (simp add: bitlen.simps [of m])
    qed
  qed
  from this [OF n] have "bitlen n - 53 = 0" by simp
  then show ?thesis by (simp add: roundDouble_def Let_def)
qed

lemma hexDigit_facts:
  "\<forall>d \<in> set (js ''0123456789abcdef'').
      isDigit 16 d \<and> \<not> strWhiteSpace d \<and> d \<noteq> 0x2B \<and> d \<noteq> 0x2D \<and> d \<noteq> 0x78 \<and> d \<noteq> 0x58
      \<and> d \<noteq> 0x3B \<and> d \<noteq> 0x3C \<and> d \<noteq> 0x22"
  by code_simp

lemma lowerHex_props:
  assumes "lowerHexDigit d"
  shows "isDigit 16 d" "\<not> strWhiteSpace d" "d \<noteq> 0x2B" "d \<noteq> 0x2D" "d \<noteq> 0x78" "d \<noteq> 0x58"
    "d \<noteq> 0x3B" "d \<noteq> 0x3C" "d \<noteq> 0x22"
  using assms hexDigit_facts unfolding lowerHexDigit_def by blast+

lemma parseInt_hex:
  assumes h: "\<forall>d \<in> set h. lowerHexDigit d" and l: "2 \<le> length h"
  shows "parseInt h 16 = Some (int (roundDouble (digitsValue 16 h)))"
proof -
  from l obtain a b t where hh: "h = a # b # t"
    by (metis Suc_le_length_iff numeral_2_eq_2)
  with h have a: "lowerHexDigit a" and b: "lowerHexDigit b" by simp_all
  have x: "js ''0x'' = [0x30, 0x78]" "js ''0X'' = [0x30, 0x58]" "js ''+'' = [0x2B]" "js ''-'' = [0x2D]"
    by code_simp+
  have 1: "dropWhile strWhiteSpace h = h"
    using lowerHex_props(2) [OF a] hh by simp
  have 2: "takeWhile (isDigit 16) h = h"
    using h lowerHex_props(1) by (simp add: takeWhile_eq_all_conv)
  have 3: "take 1 h = [a]" "take 2 h = [a, b]" by (simp_all add: hh)
  have 4: "[a] \<noteq> js ''-''" "[a] \<noteq> js ''+''" "[a, b] \<noteq> js ''0x''" "[a, b] \<noteq> js ''0X''"
    using lowerHex_props(3,4) [OF a] lowerHex_props(5,6) [OF b] by (simp_all add: x)
  have 5: "h \<noteq> []" by (simp add: hh)
  show ?thesis
    by (simp only: parseInt_def Let_def 1 2 3 4 5 if_False simp_thms mult_1)
qed

lemma entitiesByName_hash: "map_of entitiesByName (0x23 # t) = None"
proof -
  have e: "entitiesByName = [([0x61, 0x6D, 0x70], 0x26), ([0x6C, 0x74], 0x3C), ([0x67, 0x74], 0x3E),
      ([0x71, 0x75, 0x6F, 0x74], 0x22), ([0x61, 0x70, 0x6F, 0x73], 0x27)]"
    by code_simp
  show ?thesis unfolding e by simp
qed

lemma inherited_hash: "inherited (0x23 # t) = Undefined"
proof -
  have "\<forall>n \<in> set objectPrototypeNames. take 1 n \<noteq> [0x23]" by code_simp
  then have "0x23 # t \<notin> set objectPrototypeNames" by auto
  then show ?thesis by (rule inherited_none)
qed

lemma decodeEntity_numeric:
  "decodeEntity (js ''#x'' @ hexOf (unat c)) = Inr [c]"
proof -
  have x: "js ''#x'' = [0x23, 0x78]" "js ''#'' = [0x23]" "js ''x'' = [0x78]" by code_simp+
  have "unat c < 2 ^ LENGTH(16)" by (rule unsigned_less)
  then have n: "unat c < 65536" by simp
  note hp = hexOf_props [OF n]
  from hp have l: "2 \<le> length (hexOf (unat c))" by (simp split: if_splits)
  from hp have h: "\<forall>d \<in> set (hexOf (unat c)). lowerHexDigit d" by simp
  from n have "unat c < 2 ^ 53" by simp
  then have r: "roundDouble (unat c) = unat c" by (rule roundDouble_small)
  have "parseInt (hexOf (unat c)) 16 = Some (int (unat c))"
    using parseInt_hex [OF h l] hp r by simp
  then show ?thesis
    by (simp add: decodeEntity_def x entitiesByName_hash inherited_hash Let_def fromCharCode_def)
qed

text \<open>What \<open>escape\<close> writes for a code unit it replaces: \<open>&\<close>, an entity text and \<open>;\<close>.\<close>

definition entityOf :: "jschar \<Rightarrow> jsstring" where
  "entityOf c = (case map_of entitiesByChar c of Some ent \<Rightarrow> ent | None \<Rightarrow> js ''#x'' @ hexOf (unat c))"

lemma escapeChar_entityOf: "escapeChar c = 0x26 # entityOf c @ [0x3B]"
proof -
  have x: "js ''&'' = [0x26]" "js '';'' = [0x3B]" "js ''&#x'' = 0x26 # js ''#x''" by code_simp+
  show ?thesis
    by (simp add: escapeChar_def entityOf_def hexOf_def x split: option.splits)
qed

lemma named_entities:
  "\<forall>c \<in> set [0x26, 0x3C, 0x3E, 0x22, 0x27].
     decodeEntity (entityOf c) = Inr [c] \<and> entityOf c \<noteq> []
     \<and> (\<forall>d \<in> set (entityOf c). d \<noteq> 0x3B \<and> d \<noteq> 0x3C \<and> d \<noteq> 0x22)"
  by code_simp

lemma entityOf_props:
  "decodeEntity (entityOf c) = Inr [c] \<and> entityOf c \<noteq> []
     \<and> (\<forall>d \<in> set (entityOf c). d \<noteq> 0x3B \<and> d \<noteq> 0x3C \<and> d \<noteq> 0x22)"
proof (cases "isSpecial c")
  case True
  with named_entities show ?thesis unfolding isSpecial_def by blast
next
  case False
  then have e: "entityOf c = js ''#x'' @ hexOf (unat c)"
    by (simp add: entityOf_def entitiesByChar_def isSpecial_def)
  have x: "js ''#x'' = [0x23, 0x78]" by code_simp
  have "unat c < 2 ^ LENGTH(16)" by (rule unsigned_less)
  then have n: "unat c < 65536" by simp
  from hexOf_props [OF n] have h: "\<forall>d \<in> set (hexOf (unat c)). lowerHexDigit d" by simp
  show ?thesis
    using decodeEntity_numeric [of c] h lowerHex_props(7,8,9)
    by (auto simp: e x)
qed

lemma matchEntity_entity:
  assumes "e \<noteq> []" "\<forall>d \<in> set e. d \<noteq> 0x3B"
  shows "matchEntity (e @ 0x3B # rest) = Some (e, rest)"
proof -
  have "takeWhile (\<lambda>c. c \<noteq> 0x3B) (e @ 0x3B # rest) = e"
    using assms(2) by (simp add: takeWhile_append2)
  moreover have "dropWhile (\<lambda>c. c \<noteq> 0x3B) (e @ 0x3B # rest) = 0x3B # rest"
    using assms(2) by (simp add: dropWhile_append2)
  ultimately show ?thesis using assms(1) by (simp add: matchEntity_def)
qed

lemma escapeMatches_amp: "\<not> escapeMatches c \<Longrightarrow> c \<noteq> 0x26"
  by (auto simp: escapeMatches_def)

lemma clean_escape: "clean (replaceEscape v) = Inr v"
proof (induction v)
  case Nil
  show ?case by simp
next
  case (Cons c v)
  show ?case
  proof (cases "escapeMatches c")
    case False
    with Cons escapeMatches_amp [OF False] show ?thesis by simp
  next
    case True
    from entityOf_props [of c] have "matchEntity (entityOf c @ 0x3B # replaceEscape v)
        = Some (entityOf c, replaceEscape v)"
      by (intro matchEntity_entity) auto
    with True Cons entityOf_props [of c] show ?thesis
      by (simp add: escapeChar_entityOf)
  qed
qed

lemma replaceEscape_chars:
  "d \<in> set (replaceEscape v) \<Longrightarrow> d \<noteq> 0x3C \<and> d \<noteq> 0x22"
proof (induction v)
  case Nil
  then show ?case by simp
next
  case (Cons c v)
  show ?case
  proof (cases "escapeMatches c")
    case False
    then have "c \<noteq> 0x3C \<and> c \<noteq> 0x22" by (auto simp: escapeMatches_def)
    with False Cons show ?thesis by auto
  next
    case True
    with Cons entityOf_props [of c] show ?thesis
      by (auto simp: escapeChar_entityOf)
  qed
qed


subsection \<open>The scanner on a known text\<close>

lemma charCodeAt_0: "charCodeAt s 0 = (case s of [] \<Rightarrow> None | c # _ \<Rightarrow> Some c)"
  by (cases s) (simp_all add: charCodeAt_def)

lemma charCodeAt_at: "charCodeAt (p @ s) (length p) = charCodeAt s 0"
  using charCodeAt_shift [of p "length p" s] by simp

lemma charCodeAt_Cons_Suc: "charCodeAt (c # s) (Suc n) = charCodeAt s n"
  by (simp add: charCodeAt_def)

lemma eatSpaces_Nil: "eatSpaces [] 0 = 0"
  by (simp add: eatSpaces.simps [of "[]" 0] charCodeAt_def space_def)

lemma eatSpaces_Cons:
  "eatSpaces (c # s) 0 = (if space (Some c) then Suc (eatSpaces s 0) else 0)"
  using eatSpaces_shift_aux [of "[c]" s 0]
  by (simp add: eatSpaces.simps [of "c # s" 0] charCodeAt_0)

lemma eatSpaces_at: "eatSpaces (p @ s) (length p) = length p + eatSpaces s 0"
  using eatSpaces_shift_aux [of p s 0] by simp

lemma eatWord_Nil: "eatWord [] 0 = 0"
  by (simp add: eatWord.simps [of "[]" 0] charCodeAt_def inWord_def)

lemma eatWord_Cons:
  "eatWord (c # s) 0 = (if inWord (Some c) then Suc (eatWord s 0) else 0)"
  using eatWord_shift_aux [of "[c]" s 0]
  by (simp add: eatWord.simps [of "c # s" 0] charCodeAt_0)

lemma eatWord_at: "eatWord (p @ s) (length p) = length p + eatWord s 0"
  using eatWord_shift_aux [of p s 0] by simp

lemma eatWord_word:
  "\<forall>d \<in> set w. inWord (Some d) \<Longrightarrow> \<not> inWord (charCodeAt r 0) \<Longrightarrow> eatWord (w @ r) 0 = length w"
proof (induction w)
  case Nil
  then show ?case by (cases r) (simp_all add: eatWord_Nil eatWord_Cons charCodeAt_0)
next
  case (Cons c w)
  then show ?case by (simp add: eatWord_Cons)
qed

lemma substring_0: "substring s 0 n = take n s"
  by (simp add: substring_def)

lemma substring_at: "substring (p @ s) (length p) (length p + n) = take n s"
  using substring_shift [of p "length p" "length p + n" s] by (simp add: substring_0)

lemma indexOf_char_0: "c \<notin> set u \<Longrightarrow> indexOf [c] (u @ c # r) 0 = Some (length u)"
  by (induction u) (auto simp: indexOf_def)

lemma indexOf_at:
  "indexOf needle (p @ s) (length p) = map_option ((+) (length p)) (indexOf needle s 0)"
  using indexOf_shift [of p "length p" needle s] by simp

definition hasSub :: "jsstring \<Rightarrow> jsstring \<Rightarrow> bool" where
  "hasSub needle s = (findSub needle s \<noteq> None)"

lemma findSub_cdata_end:
  "\<not> hasSub (js '']]>'') c \<Longrightarrow> findSub (js '']]>'') (c @ js '']]>'' @ r) = Some (length c)"
proof (induction c)
  case Nil
  show ?case by (cases r) (simp_all add: js_def)
next
  case (Cons x c)
  have n: "js '']]>'' = [0x5D, 0x5D, 0x3E]" by code_simp
  from Cons.prems have a: "take 3 (x # c) \<noteq> js '']]>''" and b: "\<not> hasSub (js '']]>'') c"
    by (auto simp: hasSub_def numeral_2_eq_2 numeral_3_eq_3 split: if_splits)
  have "take 3 (x # c @ js '']]>'' @ r) \<noteq> js '']]>''"
  proof (cases c)
    case Nil
    then show ?thesis by (simp add: n)
  next
    case (Cons y c')
    note c = this
    show ?thesis
    proof (cases c')
      case Nil
      with c show ?thesis by (simp add: n)
    next
      case (Cons z c'')
      with c a show ?thesis by (simp add: numeral_3_eq_3)
    qed
  qed
  with Cons.IH [OF b] show ?case by (simp add: numeral_2_eq_2 numeral_3_eq_3)
qed

lemma indexOf_cdata_end:
  "\<not> hasSub (js '']]>'') c \<Longrightarrow> indexOf (js '']]>'') (c @ js '']]>'' @ r) 0 = Some (length c)"
  by (simp add: indexOf_def findSub_cdata_end)

subsection \<open>Documents\<close>

text \<open>
  A name as the scanner reads it: a character of \<open>begWord\<close>, then characters of
  \<open>inWord\<close>. The names that a plain object inherits from \<open>Object.prototype\<close> are
  kept out of the names of a document: the builder tests \<open>elt[tag] != null\<close> and
  \<open>elt.$[atb] != null\<close>, which these names satisfy on a fresh object.
\<close>

definition isName :: "jsstring \<Rightarrow> bool" where
  "isName w = (case w of [] \<Rightarrow> False
     | c # cs \<Rightarrow> begWord (Some c) \<and> (\<forall>d \<in> set cs. inWord (Some d))
         \<and> w \<notin> set objectPrototypeNames)"

text \<open>
  An element is empty, or holds a text, a CDATA section or child elements.
\<close>

datatype xml =
    Empty (xtag: jsstring) (xattrs: "(jsstring \<times> jsstring) list")
  | Text (xtag: jsstring) (xattrs: "(jsstring \<times> jsstring) list") jsstring
  | CData (xtag: jsstring) (xattrs: "(jsstring \<times> jsstring) list") jsstring
  | Node (xtag: jsstring) (xattrs: "(jsstring \<times> jsstring) list") "xml list"

definition validAttrs :: "(jsstring \<times> jsstring) list \<Rightarrow> bool" where
  "validAttrs attrs = ((\<forall>a \<in> set attrs. isName (fst a)) \<and> distinct (map fst attrs))"

fun valid :: "xml \<Rightarrow> bool" where
  "valid (Empty tag attrs) = (isName tag \<and> validAttrs attrs)"
| "valid (Text tag attrs v) = (isName tag \<and> validAttrs attrs)"
| "valid (CData tag attrs c) = (isName tag \<and> validAttrs attrs \<and> \<not> hasSub (js '']]>'') c)"
| "valid (Node tag attrs cs) =
     (isName tag \<and> validAttrs attrs \<and> cs \<noteq> [] \<and> (\<forall>c \<in> set cs. valid c))"

text \<open>The text of a document: double-quoted attributes, escaped values, no white space
  between the elements, no comments.\<close>

definition renderAttr :: "jsstring \<times> jsstring \<Rightarrow> jsstring" where
  "renderAttr a = js '' '' @ fst a @ js ''=\"'' @ replaceEscape (snd a) @ js ''\"''"

definition openTag :: "jsstring \<Rightarrow> (jsstring \<times> jsstring) list \<Rightarrow> jsstring" where
  "openTag tag attrs = js ''<'' @ tag @ concat (map renderAttr attrs)"

definition endTagOf :: "jsstring \<Rightarrow> jsstring" where
  "endTagOf tag = js ''</'' @ tag @ js ''>''"

fun render :: "xml \<Rightarrow> jsstring" where
  "render (Empty tag attrs) = openTag tag attrs @ js ''/>''"
| "render (Text tag attrs v) = openTag tag attrs @ js ''>'' @ replaceEscape v @ endTagOf tag"
| "render (CData tag attrs c) =
     openTag tag attrs @ js ''>'' @ js ''<![CDATA['' @ c @ js '']]>'' @ endTagOf tag"
| "render (Node tag attrs cs) =
     openTag tag attrs @ js ''>'' @ concat (map render cs) @ endTagOf tag"

text \<open>
  The tree of a document, as the specification describes it: the attributes under \<open>$\<close>;
  a text alone collapses to the string; the children are grouped by tag name, the names in
  the order of their first occurrence, a name that occurs once with the bare node and a
  name that occurs several times with the sequence of its nodes in document order.
\<close>

definition attrsProps :: "(jsstring \<times> jsstring) list \<Rightarrow> props" where
  "attrsProps attrs =
     (if attrs = [] then [] else [(js ''$'', Obj (map (\<lambda>a. (fst a, Str (snd a))) attrs))])"

definition firstKeys :: "jsstring list \<Rightarrow> jsstring list" where
  "firstKeys ks = rev (remdups (rev ks))"

definition groupByTag :: "(jsstring \<times> jsval) list \<Rightarrow> props" where
  "groupByTag es = map (\<lambda>k. (k, sequenceOf (valuesAt k es))) (firstKeys (map fst es))"

fun shape :: "xml \<Rightarrow> jsval" where
  "shape (Empty tag attrs) = Obj (attrsProps attrs)"
| "shape (Text tag attrs v) =
     (if attrs = [] then Str v else Obj (attrsProps attrs @ [(js ''$value'', Str v)]))"
| "shape (CData tag attrs c) = Obj (attrsProps attrs @ [(js ''$cdata'', Str c)])"
| "shape (Node tag attrs cs) =
     Obj (attrsProps attrs @ groupByTag (map (\<lambda>c. (xtag c, shape c)) cs))"

definition tree :: "xml \<Rightarrow> jsval" where
  "tree d = Obj [(xtag d, shape d)]"

subsection \<open>The builder on one element\<close>

text \<open>What \<open>push\<close> followed by \<open>pop\<close> does to the parent, for a finished node.\<close>

definition putChild :: "props \<Rightarrow> jsstring \<Rightarrow> jsval \<Rightarrow> props" where
  "putChild ps tag node =
     (let old = getProp ps tag
      in setProp ps tag
           (if notNull old then Arr ((case old of Arr xs \<Rightarrow> xs | _ \<Rightarrow> [old]) @ [node])
            else node))"

definition setElt :: "nat \<Rightarrow> props \<Rightarrow> builder \<Rightarrow> builder" where
  "setElt n ps b = b\<lparr>elt := (elt b)\<lparr>elt_childCount := n, elt_props := ps\<rparr>\<rparr>"

definition addChild :: "jsstring \<Rightarrow> jsval \<Rightarrow> builder \<Rightarrow> builder" where
  "addChild tag node b =
     setElt (elt_childCount (elt b) + 1) (putChild (elt_props (elt b)) tag node) b"

definition accepts :: "builder \<Rightarrow> bool" where
  "accepts b = (\<not> notNull (getProp (elt_props (elt b)) (js ''$cdata''))
              \<and> \<not> notNull (getProp (elt_props (elt b)) (js ''$value'')))"

definition pushed :: "jsstring \<Rightarrow> builder \<Rightarrow> builder" where
  "pushed tag b = (case push tag b of Inr b' \<Rightarrow> b' | Inl e \<Rightarrow> b)"

definition finishNode :: "props \<Rightarrow> jsval" where
  "finishNode ps =
     (if getProp ps (js ''$value'') \<noteq> Undefined \<and> \<not> truthy (getProp ps (js ''$''))
      then getProp ps (js ''$value'') else Obj ps)"

lemma push_accepts:
  "accepts b \<Longrightarrow> inherited tag = Undefined \<Longrightarrow> push tag b = Inr (pushed tag b)"
  by (simp add: accepts_def pushed_def push_def Let_def putP_own)

lemma pushed_elt:
  "accepts b \<Longrightarrow> inherited tag = Undefined \<Longrightarrow>
     elt_props (elt (pushed tag b)) = [] \<and> elt_childCount (elt (pushed tag b)) = 0
     \<and> elt_tag (elt (pushed tag b)) = Some tag"
  by (simp add: accepts_def pushed_def push_def Let_def newElement_def putP_own)

lemma setProp_setProp: "setProp (setProp ps k x) k y = setProp ps k y"
  by (induction ps) auto

lemma arraySet_last: "arraySet (items @ [x]) (length items) y = items @ [y]"
  by (simp add: arraySet_def)

lemma pop_pushed:
  assumes "accepts b" and "inherited tag = Undefined" and "tg = None \<or> tg = Some tag"
  shows "pop tg (setElt n ps (pushed tag b)) = Inr (addChild tag (finishNode ps) b)"
  using assms
  by (auto simp: accepts_def pushed_def push_def pop_def Let_def newElement_def setElt_def
      addChild_def putChild_def finishNode_def getProp_setProp setProp_setProp arraySet_last
      putP_own getP_own
      intro!: builder.equality cong: jsval.case_cong)

lemma setElt_pushed:
  "accepts b \<Longrightarrow> inherited tag = Undefined \<Longrightarrow> setElt 0 [] (pushed tag b) = pushed tag b"
  using pushed_elt [of b tag] by (simp add: setElt_def)

lemma setElt_setElt [simp]: "setElt n ps (setElt m qs b) = setElt n ps b"
  by (simp add: setElt_def)

lemma elt_setElt [simp]:
  "elt_props (elt (setElt n ps b)) = ps" "elt_childCount (elt (setElt n ps b)) = n"
  by (simp_all add: setElt_def)

lemma addChild_setElt: "addChild k v (setElt n ps b) = setElt (n + 1) (putChild ps k v) b"
  by (simp add: addChild_def)


lemma getProp_fresh: "k \<notin> fst ` set ps \<Longrightarrow> getProp ps k = Undefined"
  by (simp add: getProp_def map_of_eq_None_iff [THEN iffD2])

lemma setProp_fresh: "k \<notin> fst ` set ps \<Longrightarrow> setProp ps k v = ps @ [(k, v)]"
  by (induction ps) auto

lemma getProp_append_fresh: "k \<notin> fst ` set ps \<Longrightarrow> getProp (ps @ qs) k = getProp qs k"
  by (simp add: getProp_def map_of_append map_add_def map_of_eq_None_iff [THEN iffD2]
      split: option.splits)

lemma setProp_append_fresh: "k \<notin> fst ` set ps \<Longrightarrow> setProp (ps @ qs) k v = ps @ setProp qs k v"
  by (induction ps) auto

lemma isName_first: "isName k \<Longrightarrow> \<exists>c cs. k = c # cs \<and> begWord (Some c) \<and> c \<noteq> 0x24"
  by (cases k) (auto simp: isName_def begWord_def isLetter_def)

lemma special_names:
  "js ''$'' = [0x24]" "js ''$value'' = 0x24 # js ''value''" "js ''$cdata'' = 0x24 # js ''cdata''"
  by code_simp+

lemma isName_inherited: "isName k \<Longrightarrow> inherited k = Undefined"
  by (cases k) (auto simp: isName_def intro: inherited_none)

lemma isName_not_special:
  "isName k \<Longrightarrow> k \<noteq> js ''$'' \<and> k \<noteq> js ''$value'' \<and> k \<noteq> js ''$cdata''"
  by (auto dest!: isName_first simp: special_names)

lemma attrsProps_keys: "fst ` set (attrsProps attrs) \<subseteq> {js ''$''}"
  by (simp add: attrsProps_def)

lemma getProp_attrsProps:
  "k \<noteq> js ''$'' \<Longrightarrow> getProp (attrsProps attrs) k = Undefined"
  "k \<noteq> js ''$'' \<Longrightarrow> getProp (attrsProps attrs @ qs) k = getProp qs k"
  using attrsProps_keys [of attrs] by (auto intro!: getProp_fresh getProp_append_fresh)

lemma attribute_attrs:
  assumes "k \<notin> fst ` set seen" and i: "inherited k = Undefined"
  shows "attribute k v (setElt n (attrsProps seen) b)
           = Inr (setElt n (attrsProps (seen @ [(k, v)])) b)"
proof -
  let ?atts = "map (\<lambda>a. (fst a, Str (snd a))) seen"
  have a: "(case getProp (attrsProps seen) (js ''$'') of Obj kvs \<Rightarrow> kvs | _ \<Rightarrow> []) = ?atts"
    by (simp add: attrsProps_def getProp_def)
  from assms(1) have f: "k \<notin> fst ` set ?atts" by (auto simp: image_iff)
  have s: "setProp (attrsProps seen) (js ''$'') v' = [(js ''$'', v')]" for v'
    by (simp add: attrsProps_def)
  have r: "setElt n (attrsProps seen) b\<lparr>elt := elt (setElt n (attrsProps seen) b)\<lparr>elt_props := ps\<rparr>\<rparr>
      = setElt n ps b" for ps
    by (simp add: setElt_def)
  have t: "[(js ''$'', Obj (?atts @ [(k, Str v)]))] = attrsProps (seen @ [(k, v)])"
    by (simp add: attrsProps_def)
  show ?thesis
    by (simp add: attribute_def Let_def a getP_own [OF i] getProp_fresh [OF f]
        setProp_fresh [OF f] s r t)
qed

lemma dollar_facts:
  "js ''$cdata'' \<noteq> js ''$''" "js ''$value'' \<noteq> js ''$''" "js ''$value'' \<noteq> js ''$cdata''"
  by code_simp+

lemma value_attrs:
  "value v (setElt 0 (attrsProps attrs) b)
     = Inr (setElt 0 (attrsProps attrs @ [(js ''$value'', Str v)]) b)"
proof -
  have "js ''$value'' \<notin> fst ` set (attrsProps attrs)"
    using attrsProps_keys [of attrs] dollar_facts by auto
  then show ?thesis
    by (simp add: value_def Let_def getProp_attrsProps dollar_facts setProp_fresh setElt_def)
qed

lemma cdata_attrs:
  "cdata c (setElt 0 (attrsProps attrs) b)
     = Inr (setElt 0 (attrsProps attrs @ [(js ''$cdata'', Str c)]) b)"
proof -
  have "js ''$cdata'' \<notin> fst ` set (attrsProps attrs)"
    using attrsProps_keys [of attrs] dollar_facts by auto
  then show ?thesis
    by (simp add: cdata_def Let_def getProp_attrsProps dollar_facts setProp_fresh setElt_def)
qed

lemma finishNode_empty: "finishNode (attrsProps attrs) = Obj (attrsProps attrs)"
  by (simp add: finishNode_def getProp_attrsProps dollar_facts)

lemma finishNode_text:
  "finishNode (attrsProps attrs @ [(js ''$value'', Str v)])
     = (if attrs = [] then Str v else Obj (attrsProps attrs @ [(js ''$value'', Str v)]))"
  by (simp add: finishNode_def attrsProps_def getProp_def dollar_facts dollar_facts [symmetric])

lemma finishNode_cdata:
  "finishNode (attrsProps attrs @ [(js ''$cdata'', Str c)])
     = Obj (attrsProps attrs @ [(js ''$cdata'', Str c)])"
  by (simp add: finishNode_def attrsProps_def getProp_def dollar_facts dollar_facts [symmetric])

subsection \<open>Grouping the children\<close>

definition isNode :: "jsval \<Rightarrow> bool" where
  "isNode v = (case v of Str s \<Rightarrow> True | Obj kvs \<Rightarrow> True | _ \<Rightarrow> False)"

lemma firstKeys_snoc:
  "firstKeys (ks @ [k]) = (if k \<in> set ks then firstKeys ks else firstKeys ks @ [k])"
  by (simp add: firstKeys_def)

lemma firstKeys_set [simp]: "set (firstKeys ks) = set ks"
  by (simp add: firstKeys_def)

lemma firstKeys_distinct [simp]: "distinct (firstKeys ks)"
  by (simp add: firstKeys_def)

lemma valuesAt_snoc:
  "valuesAt q (es @ [(k, v)]) = valuesAt q es @ (if k = q then [v] else [])"
  by (simp add: valuesAt_def)

lemma valuesAt_empty: "valuesAt q es = [] \<longleftrightarrow> q \<notin> fst ` set es"
  by (auto simp: valuesAt_def filter_empty_conv image_iff)

lemma getProp_group: "getProp (groupByTag es) k = sequenceOf (valuesAt k es)"
proof (cases "k \<in> fst ` set es")
  case True
  then have "map_of (map (\<lambda>k. (k, sequenceOf (valuesAt k es))) (firstKeys (map fst es))) k
      = Some (sequenceOf (valuesAt k es))"
    by (intro map_of_is_SomeI) (auto simp: comp_def distinct_map inj_on_def)
  then show ?thesis by (simp add: getProp_def groupByTag_def)
next
  case False
  then have "k \<notin> fst ` set (groupByTag es)" by (auto simp: groupByTag_def image_iff)
  from getProp_fresh [OF this] False show ?thesis by (simp add: valuesAt_empty [THEN iffD2])
qed

lemma sequenceOf_snoc:
  assumes "\<forall>x \<in> set vs. isNode x"
  shows "(if notNull (sequenceOf vs)
          then Arr ((case sequenceOf vs of Arr xs \<Rightarrow> xs | _ \<Rightarrow> [sequenceOf vs]) @ [v])
          else v) = sequenceOf (vs @ [v])"
proof (cases vs)
  case Nil
  then show ?thesis by simp
next
  case (Cons x xs)
  note vs = this
  show ?thesis
  proof (cases xs)
    case Nil
    with vs assms show ?thesis by (cases x) (simp_all add: isNode_def)
  next
    case (Cons y ys)
    with vs show ?thesis by simp
  qed
qed

lemma setProp_map:
  "distinct ks \<Longrightarrow> setProp (map (\<lambda>k. (k, f k)) ks) q y
     = (if q \<in> set ks then map (\<lambda>k. (k, if k = q then y else f k)) ks
        else map (\<lambda>k. (k, f k)) ks @ [(q, y)])"
  by (induction ks) auto

lemma putChild_group:
  assumes "\<forall>e \<in> set es. isNode (snd e)" and "k \<notin> fst ` set ps0"
  shows "putChild (ps0 @ groupByTag es) k v = ps0 @ groupByTag (es @ [(k, v)])"
proof -
  have n: "\<forall>x \<in> set (valuesAt k es). isNode x"
    using assms(1) by (auto simp: valuesAt_def)
  have "putChild (ps0 @ groupByTag es) k v
      = setProp (ps0 @ groupByTag es) k (sequenceOf (valuesAt k es @ [v]))"
    using sequenceOf_snoc [OF n, of v]
    by (simp add: putChild_def Let_def getProp_append_fresh [OF assms(2)] getProp_group)
  also have "\<dots> = ps0 @ setProp (groupByTag es) k (sequenceOf (valuesAt k es @ [v]))"
    by (rule setProp_append_fresh [OF assms(2)])
  also have "setProp (groupByTag es) k (sequenceOf (valuesAt k es @ [v])) = groupByTag (es @ [(k, v)])"
    by (auto simp: groupByTag_def setProp_map firstKeys_snoc valuesAt_snoc image_iff)
  finally show ?thesis .
qed

lemma group_Nil [simp]: "groupByTag [] = []"
  by (simp add: groupByTag_def firstKeys_def)

lemma foldl_putChild:
  assumes "\<forall>e \<in> set es. isNode (snd e) \<and> fst e \<notin> fst ` set ps0"
  shows "foldl (\<lambda>ps e. putChild ps (fst e) (snd e)) ps0 es = ps0 @ groupByTag es"
  using assms
proof (induction es rule: rev_induct)
  case Nil
  show ?case by simp
next
  case (snoc e es)
  then show ?case using putChild_group [of es "fst e" ps0 "snd e"] by simp
qed

lemma isNode_shape: "isNode (shape d)"
  by (cases d) (simp_all add: isNode_def)

subsection \<open>The tags and the content of a rendered element\<close>

lemma isName_inWord: "isName w \<Longrightarrow> \<forall>d \<in> set w. inWord (Some d)"
  by (cases w) (auto simp: isName_def begWord_def inWord_def)

lemma isName_Cons:
  "isName w \<Longrightarrow> \<exists>c cs. w = c # cs \<and> begWord (Some c) \<and> \<not> space (Some c) \<and> c \<noteq> SLASH
      \<and> c \<noteq> EXCLAM \<and> (\<forall>d \<in> set cs. inWord (Some d))"
  by (cases w) (auto simp: isName_def begWord_def isLetter_def space_def SLASH_def EXCLAM_def)

lemma char_classes:
  "\<not> inWord (Some 0x3D)" "\<not> inWord (Some 0x20)" "\<not> inWord (Some 0x2F)" "\<not> inWord (Some 0x3E)"
  "\<not> space (Some 0x3D)" "\<not> space (Some 0x22)" "\<not> space (Some 0x2F)" "\<not> space (Some 0x3E)"
  "\<not> space (Some 0x3C)" "space (Some 0x20)"
  "\<not> begWord (Some 0x2F)" "\<not> begWord (Some 0x3E)" "\<not> begWord (Some 0x21)"
  by (simp_all add: inWord_def space_def begWord_def isLetter_def)

lemma parseAttribute_rendered:
  assumes k: "isName k" and f: "k \<notin> fst ` set seen"
  shows "parseAttribute (renderAttr (k, v) @ rest) 1 2 (setElt n (attrsProps seen) b)
           = Inr (length (renderAttr (k, v)), setElt n (attrsProps (seen @ [(k, v)])) b)"
proof -
  from isName_Cons [OF k] obtain c cs where kk: "k = c # cs" and c: "begWord (Some c)"
    and cs: "\<forall>d \<in> set cs. inWord (Some d)" by blast
  define e where "e = replaceEscape v"
  define str where "str = renderAttr (k, v) @ rest"
  have x: "js '' '' = [0x20]" "js ''=\"'' = [0x3D, 0x22]" "js ''\"'' = [0x22]" by code_simp+
  have s: "str = 0x20 # c # cs @ 0x3D # 0x22 # e @ 0x22 # rest"
    by (simp add: str_def renderAttr_def x kk e_def)
  have q: "0x22 \<notin> set e" using replaceEscape_chars [of "0x22" v] by (auto simp: e_def)
  have f3: "eatWord str 2 = Suc (Suc (length cs))"
    using eatWord_at [of "[0x20, c]" "cs @ 0x3D # 0x22 # e @ 0x22 # rest"] cs
    by (simp add: s eatWord_word charCodeAt_0 char_classes numeral_2_eq_2)
  have f4: "substring str (Suc 0) (Suc (Suc (length cs))) = k"
    by (simp add: s substring_def kk)
  have f5: "eatSpaces str (Suc (Suc (length cs))) = Suc (Suc (length cs))"
    using eatSpaces_at [of "0x20 # c # cs" "0x3D # 0x22 # e @ 0x22 # rest"]
    by (simp add: s eatSpaces_Cons char_classes)
  have f6: "charCodeAt str (Suc (Suc (length cs))) = Some 0x3D"
    using charCodeAt_at [of "0x20 # c # cs" "0x3D # 0x22 # e @ 0x22 # rest"]
    by (simp add: s charCodeAt_0)
  have f7: "eatSpaces str (Suc (Suc (Suc (length cs)))) = Suc (Suc (Suc (length cs)))"
    using eatSpaces_at [of "0x20 # c # cs @ [0x3D]" "0x22 # e @ 0x22 # rest"]
    by (simp add: s eatSpaces_Cons char_classes)
  have f8: "charCodeAt str (Suc (Suc (Suc (length cs)))) = Some 0x22"
    using charCodeAt_at [of "0x20 # c # cs @ [0x3D]" "0x22 # e @ 0x22 # rest"]
    by (simp add: s charCodeAt_0)
  have f9: "indexOf [0x22] str (Suc (Suc (Suc (Suc (length cs)))))
      = Some (Suc (Suc (Suc (Suc (length cs + length e)))))"
    using indexOf_at [of "[0x22]" "0x20 # c # cs @ [0x3D, 0x22]" "e @ 0x22 # rest"] q
    by (simp add: s indexOf_char_0)
  have f10: "substring str (Suc (Suc (Suc (Suc (length cs)))))
      (Suc (Suc (Suc (Suc (length cs + length e))))) = e"
    using substring_at [of "0x20 # c # cs @ [0x3D, 0x22]" "e @ 0x22 # rest" "length e"]
    by (simp add: s)
  have f11: "clean e = Inr v" by (simp add: e_def clean_escape)
  have l: "length (renderAttr (k, v)) = Suc (Suc (Suc (Suc (Suc (length cs + length e)))))"
    by (simp add: renderAttr_def x kk e_def)
  show ?thesis
    unfolding str_def [symmetric] parseAttribute_def Let_def
    by (simp add: f3 f4 f5 f6 f7 f8 f9 f10 f11 l eat_def eatQuote_def EQ_def
        attribute_attrs [OF f isName_inherited [OF k]])
qed


lemma shiftP_0 [simp]: "shiftP 0 r = r"
  by (cases r) auto

lemma shiftP_shiftP [simp]: "shiftP n (shiftP m r) = shiftP (n + m) r"
  by (cases r) auto

lemma tagLoop_attr_step:
  assumes k: "isName k" and f: "k \<notin> fst ` set seen"
  shows "tagLoop (renderAttr (k, v) @ rest) 0 (setElt n (attrsProps seen) b)
           = shiftP (length (renderAttr (k, v)))
               (tagLoop rest 0 (setElt n (attrsProps (seen @ [(k, v)])) b))"
proof -
  from isName_Cons [OF k] obtain c cs where kk: "k = c # cs" and c: "begWord (Some c)"
    and ns: "\<not> space (Some c)" and nsl: "c \<noteq> SLASH" by blast
  define str where "str = renderAttr (k, v) @ rest"
  have x: "js '' '' = [0x20]" by code_simp
  have s: "str = 0x20 # c # (cs @ js ''=\"'' @ replaceEscape v @ js ''\"'' @ rest)"
    by (simp add: str_def renderAttr_def x kk)
  have f1: "eatSpaces str 0 = Suc 0"
    unfolding s by (simp add: eatSpaces_Cons char_classes ns)
  have f2: "charCodeAt str (Suc 0) = Some c"
    unfolding s by (simp add: charCodeAt_def)
  have pa: "parseAttribute str (Suc 0) (Suc (Suc 0)) (setElt n (attrsProps seen) b)
      = Inr (length (renderAttr (k, v)), setElt n (attrsProps (seen @ [(k, v)])) b)"
    using parseAttribute_rendered [OF k f, of v rest n b]
    by (simp add: str_def numeral_2_eq_2)
  have sh: "tagLoop str (length (renderAttr (k, v))) bb
      = shiftP (length (renderAttr (k, v))) (tagLoop rest 0 bb)" for bb
    unfolding str_def using tagLoop_shift [of "renderAttr (k, v)" "length (renderAttr (k, v))" rest bb]
    by simp
  show ?thesis
    unfolding str_def [symmetric]
    by (simp add: tagLoop.simps [of str 0] Let_def f1 f2 c nsl pa sh)
qed

lemma tagLoop_attrs:
  assumes "\<forall>a \<in> set attrs. isName (fst a)" and "distinct (map fst (seen @ attrs))"
  shows "tagLoop (concat (map renderAttr attrs) @ tail) 0 (setElt n (attrsProps seen) b)
           = shiftP (length (concat (map renderAttr attrs)))
               (tagLoop tail 0 (setElt n (attrsProps (seen @ attrs)) b))"
  using assms
proof (induction attrs arbitrary: seen)
  case Nil
  show ?case by simp
next
  case (Cons a attrs)
  obtain k v where a: "a = (k, v)" by (cases a)
  from Cons.prems a have k: "isName k" and f: "k \<notin> fst ` set seen" by auto
  from Cons.prems a have "\<forall>a \<in> set attrs. isName (fst a)"
    and "distinct (map fst ((seen @ [(k, v)]) @ attrs))" by auto
  from Cons.IH [OF this] tagLoop_attr_step [OF k f, of v "concat (map renderAttr attrs) @ tail" n b]
  show ?case by (simp add: a add.commute)
qed

lemma literals:
  "js ''/>'' = [0x2F, 0x3E]" "js ''>'' = [0x3E]" "js ''<'' = [0x3C]" "js ''</'' = [0x3C, 0x2F]"
  "js ''<![CDATA['' = [0x3C, 0x21, 0x5B, 0x43, 0x44, 0x41, 0x54, 0x41, 0x5B]"
  "js '']]>'' = [0x5D, 0x5D, 0x3E]" "js ''CDATA['' = [0x43, 0x44, 0x41, 0x54, 0x41, 0x5B]"
  "js ''--'' = [0x2D, 0x2D]" "js '' '' = [0x20]"
  by code_simp+

lemma tagLoop_close:
  "tagLoop (js ''/>'' @ rest) 0 bb = bindE (pop None bb) (\<lambda>b. Inr (2, b))"
  by (simp add: tagLoop.simps [of _ 0] Let_def literals eatSpaces_Cons char_classes charCodeAt_def
      SLASH_def GT_def eat_def numeral_2_eq_2)

lemma tagLoop_content:
  "tagLoop (0x3E # content) 0 bb = shiftP 1 (parseContent content 0 bb)"
  using parseContent_shift [of "[0x3E]" content 0 bb]
  by (simp add: tagLoop.simps [of _ 0] Let_def eatSpaces_Cons char_classes charCodeAt_def
      SLASH_def GT_def)

lemma parseContent_text:
  "parseContent (replaceEscape v @ js ''</'' @ tl0) 0 bb
     = bindE (value v bb) (\<lambda>b. Inr (length (replaceEscape v), b))"
proof -
  define e where "e = replaceEscape v"
  define str where "str = e @ js ''</'' @ tl0"
  have s: "str = e @ 0x3C # 0x2F # tl0" by (simp add: str_def literals)
  have q: "0x3C \<notin> set e" using replaceEscape_chars [of "0x3C" v] by (auto simp: e_def)
  have i: "indexOf [0x3C] str 0 = Some (length e)"
    unfolding s using q by (rule indexOf_char_0)
  have c: "charCodeAt str (Suc (length e)) = Some 0x2F"
    using charCodeAt_at [of "e @ [0x3C]" "0x2F # tl0"] by (simp add: s charCodeAt_0)
  have sc: "scanText str 0 [] = Inr ([], 0, length e)"
    by (simp add: scanText.simps [of str 0] LT_def i c EXCLAM_def)
  have sb: "substring str 0 (length e) = e" by (simp add: s substring_0)
  show ?thesis
    unfolding e_def [symmetric] str_def [symmetric] parseContent_def
    by (simp add: sc sb c SLASH_def clean_escape [of v, folded e_def])
qed

lemma parseContent_markup:
  assumes "c \<noteq> SLASH" and "c = EXCLAM \<longrightarrow> take 2 tl0 \<noteq> js ''--''"
  shows "parseContent (0x3C # c # tl0) 0 bb = Inr (0, bb)"
proof -
  define str where "str = 0x3C # c # tl0"
  have i: "indexOf [0x3C] str 0 = Some 0" by (simp add: str_def indexOf_def)
  have c: "charCodeAt str (Suc 0) = Some c" by (simp add: str_def charCodeAt_def)
  have sb: "substring str (Suc (Suc 0)) 4 = take 2 tl0" by (simp add: str_def substring_def)
  have sc: "scanText str 0 [] = Inr ([], 0, 0)"
    using assms by (auto simp: scanText.simps [of str 0] LT_def i c sb)
  show ?thesis
    unfolding str_def [symmetric] parseContent_def
    using assms(1) by (simp add: sc c substring_0 checkEmpty_def)
qed

subsection \<open>The steps of the main loop on a rendered element\<close>

definition tight :: "jsstring \<Rightarrow> bool" where
  "tight rest = (\<not> space (charCodeAt rest 0))"

lemma eatSpaces_tight: "tight rest \<Longrightarrow> eatSpaces rest 0 = 0"
  by (simp add: tight_def eatSpaces.simps [of rest 0])

lemma eatSpaces_tight_at: "tight rest \<Longrightarrow> eatSpaces (p @ rest) (length p) = length p"
  by (simp add: eatSpaces_at eatSpaces_tight)

lemma mainLoop_step:
  assumes "step (p @ s) 0 b = Inr (length p, b')" and "p \<noteq> []"
  shows "mainLoop (p @ s) 0 b = mainLoop s 0 b'"
  using assms mainLoop_shift [of p s 0 b'] by (simp add: mainLoop.simps [of "p @ s" 0 b])

lemma dispatch_open:
  assumes t: "isName tag" and a: "accepts b" and w: "\<not> inWord (charCodeAt tail 0)"
  shows "dispatch (0x3C # tag @ tail) (Suc 0) b
           = shiftP (Suc (length tag)) (tagLoop tail 0 (pushed tag b))"
proof -
  from isName_Cons [OF t] obtain c cs where tt: "tag = c # cs" and c: "begWord (Some c)"
    and cs: "\<forall>d \<in> set cs. inWord (Some d)" by blast
  define str where "str = 0x3C # tag @ tail"
  have s: "str = 0x3C # c # cs @ tail" by (simp add: str_def tt)
  have f1: "charCodeAt str (Suc 0) = Some c" by (simp add: s charCodeAt_def)
  have f2: "eatWord str (Suc (Suc 0)) = Suc (Suc (length cs))"
    using eatWord_at [of "[0x3C, c]" "cs @ tail"] cs w by (simp add: s eatWord_word)
  have f3: "substring str (Suc 0) (Suc (Suc (length cs))) = tag"
    by (simp add: s substring_def tt)
  have sh: "tagLoop str (Suc (Suc (length cs))) bb = shiftP (Suc (Suc (length cs))) (tagLoop tail 0 bb)"
    for bb
    using tagLoop_shift [of "0x3C # tag" "Suc (Suc (length cs))" tail bb] by (simp add: str_def tt)
  show ?thesis
    unfolding str_def [symmetric]
    by (simp add: dispatch_def Let_def f1 c f2 f3 push_accepts [OF a isName_inherited [OF t]] sh) (simp add: tt)
qed

lemma step_open:
  assumes t: "isName tag" and v: "validAttrs attrs" and a: "accepts b"
    and h: "charCodeAt tail 0 = Some 0x2F \<or> charCodeAt tail 0 = Some 0x3E"
  shows "step (openTag tag attrs @ tail) 0 b
           = bindE (tagLoop tail 0 (setElt 0 (attrsProps attrs) (pushed tag b)))
               (\<lambda>(pos, bld). Inr (eatSpaces (openTag tag attrs @ tail)
                                     (length (openTag tag attrs) + pos), bld))"
proof -
  define at where "at = concat (map renderAttr attrs)"
  define str where "str = openTag tag attrs @ tail"
  have s: "str = 0x3C # tag @ (at @ tail)" by (simp add: str_def openTag_def literals at_def)
  have w: "\<not> inWord (charCodeAt (at @ tail) 0)"
  proof (cases attrs)
    case Nil
    with h show ?thesis by (auto simp: at_def char_classes)
  next
    case (Cons a as)
    then show ?thesis by (simp add: at_def renderAttr_def literals charCodeAt_def char_classes)
  qed
  have e: "eat LT str 0 = Inr (Suc 0)" by (simp add: s eat_def charCodeAt_def LT_def)
  have p: "pushed tag b = setElt 0 (attrsProps []) (pushed tag b)"
    using setElt_pushed [OF a isName_inherited [OF t]] by (simp add: attrsProps_def)
  from v have "\<forall>a \<in> set attrs. isName (fst a)" and "distinct (map fst ([] @ attrs))"
    by (simp_all add: validAttrs_def)
  from tagLoop_attrs [OF this, of tail 0 "pushed tag b"]
  have tl: "tagLoop (at @ tail) 0 (pushed tag b)
      = shiftP (length at) (tagLoop tail 0 (setElt 0 (attrsProps attrs) (pushed tag b)))"
    using p by (simp add: at_def)
  have l: "length (openTag tag attrs) = Suc (length tag + length at)"
    by (simp add: openTag_def literals at_def)
  have d: "dispatch str (Suc 0) b = shiftP (length (openTag tag attrs))
      (tagLoop tail 0 (setElt 0 (attrsProps attrs) (pushed tag b)))"
    unfolding s by (simp add: dispatch_open [OF t a w] tl l)
  show ?thesis
    unfolding str_def [symmetric] step_def
    by (simp add: e d bindE_shiftP case_prod_unfold)
qed

lemma step_closing:
  assumes t: "isName tag" and a: "accepts b" and r: "tight rest"
  shows "step (endTagOf tag @ rest) 0 (setElt n ps (pushed tag b))
           = Inr (length (endTagOf tag), addChild tag (finishNode ps) b)"
proof -
  from isName_Cons [OF t] obtain c cs where tt: "tag = c # cs" and c: "begWord (Some c)"
    and cs: "\<forall>d \<in> set cs. inWord (Some d)" by blast
  define str where "str = endTagOf tag @ rest"
  have s: "str = 0x3C # 0x2F # c # cs @ 0x3E # rest" by (simp add: str_def endTagOf_def literals tt)
  have e: "eat LT str 0 = Inr (Suc 0)" by (simp add: s eat_def charCodeAt_def LT_def)
  have f1: "charCodeAt str (Suc 0) = Some 0x2F" by (simp add: s charCodeAt_def)
  have f2: "charCodeAt str (Suc (Suc 0)) = Some c" by (simp add: s charCodeAt_def)
  have f3: "eatWord str (Suc (Suc (Suc 0))) = Suc (Suc (Suc (length cs)))"
    using eatWord_at [of "[0x3C, 0x2F, c]" "cs @ 0x3E # rest"] cs
    by (simp add: s eatWord_word charCodeAt_0 char_classes)
  have f4: "substring str (Suc (Suc 0)) (Suc (Suc (Suc (length cs)))) = tag"
    by (simp add: s substring_def tt)
  have f5: "eatSpaces str (Suc (Suc (Suc (length cs)))) = Suc (Suc (Suc (length cs)))"
    using eatSpaces_at [of "0x3C # 0x2F # c # cs" "0x3E # rest"]
    by (simp add: s eatSpaces_Cons char_classes)
  have f6: "charCodeAt str (Suc (Suc (Suc (length cs)))) = Some 0x3E"
    using charCodeAt_at [of "0x3C # 0x2F # c # cs" "0x3E # rest"] by (simp add: s charCodeAt_0)
  have f7: "eatSpaces str (Suc (Suc (Suc (Suc (length cs))))) = Suc (Suc (Suc (Suc (length cs))))"
    using eatSpaces_tight_at [OF r, of "0x3C # 0x2F # c # cs @ [0x3E]"] by (simp add: s)
  have l: "length (endTagOf tag) = Suc (Suc (Suc (Suc (length cs))))"
    by (simp add: endTagOf_def literals tt)
  have ct: "closingTag str (Suc (Suc 0)) (setElt n ps (pushed tag b))
      = Inr (Suc (Suc (Suc (Suc (length cs)))), addChild tag (finishNode ps) b)"
    by (simp add: closingTag_def Let_def f2 c f3 f4 f5 f6 eat_def GT_def
        pop_pushed [OF a isName_inherited [OF t]])
  have d: "dispatch str (Suc 0) (setElt n ps (pushed tag b))
      = Inr (Suc (Suc (Suc (Suc (length cs)))), addChild tag (finishNode ps) b)"
    by (simp add: dispatch_def Let_def f1 char_classes SLASH_def ct)
  show ?thesis
    unfolding str_def [symmetric] step_def by (simp add: e d f7 l)
qed

lemma step_cdata:
  assumes c: "\<not> hasSub (js '']]>'') c" and r: "tight rest"
  shows "step (js ''<![CDATA['' @ c @ js '']]>'' @ rest) 0 bb
           = bindE (cdata c bb) (\<lambda>b. Inr (length (js ''<![CDATA['' @ c @ js '']]>''), b))"
proof -
  define str where "str = js ''<![CDATA['' @ c @ js '']]>'' @ rest"
  define pre :: jsstring where "pre = js ''<![CDATA[''"
  have lp: "length pre = 9" by (simp add: pre_def)
  have s: "str = pre @ (c @ js '']]>'' @ rest)" by (simp add: str_def pre_def)
  have s': "str = 0x3C # 0x21 # 0x5B # js ''CDATA['' @ (c @ js '']]>'' @ rest)"
    by (simp add: str_def literals)
  have e: "eat LT str 0 = Inr (Suc 0)" by (simp add: s' eat_def charCodeAt_def LT_def)
  have f1: "charCodeAt str (Suc 0) = Some 0x21" by (simp add: s' charCodeAt_def)
  have f2: "charCodeAt str 2 = Some 0x5B" by (simp add: s' charCodeAt_def)
  have f3: "substring str 3 9 = js ''CDATA[''" by (simp add: s' substring_def)
  have f4: "indexOf (js '']]>'') str 9 = Some (9 + length c)"
    using indexOf_at [of "js '']]>''" pre "c @ js '']]>'' @ rest"]
    unfolding lp s by (simp add: indexOf_cdata_end [OF c])
  have f5: "substring str 9 (9 + length c) = c"
    using substring_at [of pre "c @ js '']]>'' @ rest" "length c"]
    unfolding lp s by simp
  have l2: "length (js ''<![CDATA['' @ c @ js '']]>'') = 12 + length c" by simp
  have f6: "eatSpaces str (12 + length c) = 12 + length c"
    using eatSpaces_tight_at [OF r, of "js ''<![CDATA['' @ c @ js '']]>''"]
    unfolding l2 by (simp add: str_def)
  have ex: "exclam str 2 bb = bindE (cdata c bb) (\<lambda>b. Inr (12 + length c, b))"
    by (simp add: exclam_def Let_def f2 DASH_def OBRA_def f3 f4 f5 f6 cong: bindE_cong)
  have d: "dispatch str (Suc 0) bb = bindE (cdata c bb) (\<lambda>b. Inr (12 + length c, b))"
    using ex [unfolded numeral_2_eq_2]
    by (simp add: dispatch_def Let_def f1 char_classes SLASH_def EXCLAM_def)
  show ?thesis
    unfolding str_def [symmetric] step_def
    by (cases "cdata c bb") (simp_all add: e d f6)
qed

subsection \<open>The main loop on a rendered document\<close>

lemma render_Cons: "\<exists>t. render d = 0x3C # t"
  by (cases d) (simp_all add: openTag_def literals)

lemma tight_render: "tight (render d @ rest)"
  using render_Cons [of d] by (auto simp: tight_def charCodeAt_def char_classes)

lemma tight_concat_render: "tight rest \<Longrightarrow> tight (concat (map render cs) @ rest)"
  by (cases cs) (simp_all add: tight_render)

lemma tight_endTagOf: "tight (endTagOf tag @ rest)"
  by (simp add: tight_def endTagOf_def literals charCodeAt_def char_classes)

lemma tight_Nil: "tight []"
  by (simp add: tight_def charCodeAt_def space_def)

lemma valid_isName: "valid d \<Longrightarrow> isName (xtag d)"
  by (cases d) simp_all

lemma valid_attrs: "valid d \<Longrightarrow> validAttrs (xattrs d)"
  by (cases d) simp_all

lemma accepts_addChild: "isName k \<Longrightarrow> accepts b \<Longrightarrow> accepts (addChild k v b)"
  using isName_not_special [of k]
  by (auto simp: accepts_def addChild_def putChild_def Let_def getProp_setProp)

lemma accepts_attrs: "accepts (setElt 0 (attrsProps attrs) bb)"
  by (simp add: accepts_def getProp_attrsProps dollar_facts)

lemma accepts_builder: "accepts builder"
  by (simp add: accepts_def builder_def newElement_def getProp_def)

lemma mainLoop_closing:
  assumes "isName tag" and "accepts b" and "tight rest"
  shows "mainLoop (endTagOf tag @ rest) 0 (setElt n ps (pushed tag b))
           = mainLoop rest 0 (addChild tag (finishNode ps) b)"
  using step_closing [OF assms, of n ps]
  by (intro mainLoop_step) (simp_all add: endTagOf_def literals)

lemma mainLoop_empty:
  assumes t: "isName tag" and v: "validAttrs attrs" and a: "accepts b" and r: "tight rest"
  shows "mainLoop (openTag tag attrs @ js ''/>'' @ rest) 0 b
           = mainLoop rest 0 (addChild tag (Obj (attrsProps attrs)) b)"
proof -
  define p where "p = openTag tag attrs @ js ''/>''"
  have l: "length p = length (openTag tag attrs) + 2" by (simp add: p_def)
  have h: "charCodeAt (js ''/>'' @ rest) 0 = Some 0x2F \<or> charCodeAt (js ''/>'' @ rest) 0 = Some 0x3E"
    by (simp add: literals charCodeAt_def)
  have e: "eatSpaces (openTag tag attrs @ js ''/>'' @ rest) (length (openTag tag attrs) + 2)
      = length (openTag tag attrs) + 2"
    using eatSpaces_tight_at [OF r, of p] unfolding l by (simp add: p_def)
  have "step (p @ rest) 0 b = Inr (length p, addChild tag (Obj (attrsProps attrs)) b)"
    unfolding l using step_open [OF t v a h] e
    by (simp add: p_def tagLoop_close pop_pushed [OF a isName_inherited [OF t]] finishNode_empty)
  moreover have "p \<noteq> []" by (simp add: p_def openTag_def literals)
  ultimately have "mainLoop (p @ rest) 0 b = mainLoop rest 0 (addChild tag (Obj (attrsProps attrs)) b)"
    by (rule mainLoop_step)
  then show ?thesis by (simp add: p_def)
qed

lemma mainLoop_content:
  assumes t: "isName tag" and v: "validAttrs attrs" and a: "accepts b"
    and pc: "parseContent (pre @ post) 0 (setElt 0 (attrsProps attrs) (pushed tag b))
               = Inr (length pre, bo)"
    and r: "tight post"
  shows "mainLoop (openTag tag attrs @ js ''>'' @ pre @ post) 0 b = mainLoop post 0 bo"
proof -
  define p where "p = openTag tag attrs @ js ''>'' @ pre"
  have l: "length p = length (openTag tag attrs) + (1 + length pre)" by (simp add: p_def)
  have h: "charCodeAt (0x3E # pre @ post) 0 = Some 0x2F \<or> charCodeAt (0x3E # pre @ post) 0 = Some 0x3E"
    by (simp add: charCodeAt_def)
  have e: "eatSpaces (openTag tag attrs @ 0x3E # pre @ post)
      (length (openTag tag attrs) + (1 + length pre)) = length (openTag tag attrs) + (1 + length pre)"
    using eatSpaces_tight_at [OF r, of p] unfolding l by (simp add: p_def literals)
  have "step (p @ post) 0 b = Inr (length p, bo)"
    unfolding l using step_open [OF t v a h] e
    by (simp add: p_def literals tagLoop_content pc)
  moreover have "p \<noteq> []" by (simp add: p_def openTag_def literals)
  ultimately have "mainLoop (p @ post) 0 b = mainLoop post 0 bo"
    by (rule mainLoop_step)
  then show ?thesis by (simp add: p_def)
qed

lemma mainLoop_cdata:
  assumes c: "\<not> hasSub (js '']]>'') c" and r: "tight rest"
  shows "mainLoop (js ''<![CDATA['' @ c @ js '']]>'' @ rest) 0 (setElt 0 (attrsProps attrs) bb)
           = mainLoop rest 0 (setElt 0 (attrsProps attrs @ [(js ''$cdata'', Str c)]) bb)"
proof -
  have "step ((js ''<![CDATA['' @ c @ js '']]>'') @ rest) 0 (setElt 0 (attrsProps attrs) bb)
      = Inr (length (js ''<![CDATA['' @ c @ js '']]>''),
             setElt 0 (attrsProps attrs @ [(js ''$cdata'', Str c)]) bb)"
    using step_cdata [OF c r, of "setElt 0 (attrsProps attrs) bb"] by (simp add: cdata_attrs)
  moreover have "js ''<![CDATA['' @ c @ js '']]>'' \<noteq> []" by (simp add: literals)
  ultimately have "mainLoop ((js ''<![CDATA['' @ c @ js '']]>'') @ rest) 0 (setElt 0 (attrsProps attrs) bb)
      = mainLoop rest 0 (setElt 0 (attrsProps attrs @ [(js ''$cdata'', Str c)]) bb)"
    by (rule mainLoop_step)
  then show ?thesis by simp
qed

lemma mainLoop_children:
  assumes IH: "\<And>c b rest. c \<in> set cs \<Longrightarrow> valid c \<Longrightarrow> accepts b \<Longrightarrow> tight rest \<Longrightarrow>
      mainLoop (render c @ rest) 0 b = mainLoop rest 0 (addChild (xtag c) (shape c) b)"
    and "\<forall>c \<in> set cs. valid c" and "accepts b" and "tight rest"
  shows "mainLoop (concat (map render cs) @ rest) 0 b
           = mainLoop rest 0 (foldl (\<lambda>b c. addChild (xtag c) (shape c) b) b cs)"
  using assms
proof (induction cs arbitrary: b)
  case Nil
  show ?case by simp
next
  case (Cons c cs)
  have t: "tight (concat (map render cs) @ rest)"
    using Cons.prems(4) by (rule tight_concat_render)
  from Cons.prems have vc: "valid c" and ab: "accepts b" by simp_all
  have 1: "mainLoop (render c @ concat (map render cs) @ rest) 0 b
      = mainLoop (concat (map render cs) @ rest) 0 (addChild (xtag c) (shape c) b)"
    using Cons.prems(1) [OF _ vc ab t] by simp
  have 2: "accepts (addChild (xtag c) (shape c) b)"
    using valid_isName [OF vc] ab by (rule accepts_addChild)
  have 3: "mainLoop (concat (map render cs) @ rest) 0 (addChild (xtag c) (shape c) b)
      = mainLoop rest 0 (foldl (\<lambda>b c. addChild (xtag c) (shape c) b) (addChild (xtag c) (shape c) b) cs)"
    using Cons.prems by (intro Cons.IH) (simp_all add: 2)
  show ?case using 1 3 by simp
qed

lemma foldl_addChild:
  "foldl (\<lambda>b c. addChild (xtag c) (shape c) b) (setElt n ps bb) cs
     = setElt (n + length cs)
         (foldl (\<lambda>ps e. putChild ps (fst e) (snd e)) ps (map (\<lambda>c. (xtag c, shape c)) cs)) bb"
  by (induction cs arbitrary: n ps) (simp_all add: addChild_setElt)

lemma finishNode_children:
  assumes "\<forall>e \<in> set es. isName (fst e)"
  shows "finishNode (attrsProps attrs @ groupByTag es) = Obj (attrsProps attrs @ groupByTag es)"
proof -
  have "js ''$value'' \<notin> fst ` set es"
  proof
    assume "js ''$value'' \<in> fst ` set es"
    then obtain e where "e \<in> set es" and "fst e = js ''$value''" by auto
    with assms have "isName (js ''$value'')" by fastforce
    from isName_not_special [OF this] show False by simp
  qed
  then have "valuesAt (js ''$value'') es = []" by (simp add: valuesAt_empty)
  then show ?thesis
    by (simp add: finishNode_def getProp_attrsProps dollar_facts getProp_group)
qed

lemma mainLoop_render:
  "valid d \<Longrightarrow> accepts b \<Longrightarrow> tight rest \<Longrightarrow>
     mainLoop (render d @ rest) 0 b = mainLoop rest 0 (addChild (xtag d) (shape d) b)"
proof (induction d arbitrary: b rest)
  case (Empty tag attrs)
  then show ?case using mainLoop_empty [of tag attrs b rest] by simp
next
  case (Text tag attrs v)
  then have t: "isName tag" and va: "validAttrs attrs" by simp_all
  let ?bo = "setElt 0 (attrsProps attrs) (pushed tag b)"
  have pc: "parseContent (replaceEscape v @ endTagOf tag @ rest) 0 ?bo
      = Inr (length (replaceEscape v), setElt 0 (attrsProps attrs @ [(js ''$value'', Str v)]) (pushed tag b))"
    using parseContent_text [of v "tag @ js ''>'' @ rest" ?bo]
    by (simp add: endTagOf_def value_attrs)
  have "mainLoop (render (Text tag attrs v) @ rest) 0 b
      = mainLoop (endTagOf tag @ rest) 0
          (setElt 0 (attrsProps attrs @ [(js ''$value'', Str v)]) (pushed tag b))"
    using mainLoop_content [OF t va Text.prems(2) pc tight_endTagOf] by simp
  also have "\<dots> = mainLoop rest 0
      (addChild tag (finishNode (attrsProps attrs @ [(js ''$value'', Str v)])) b)"
    using t Text.prems(2,3) by (rule mainLoop_closing)
  finally show ?case by (simp add: finishNode_text)
next
  case (CData tag attrs c)
  then have t: "isName tag" and va: "validAttrs attrs" and nc: "\<not> hasSub (js '']]>'') c"
    by simp_all
  let ?bo = "setElt 0 (attrsProps attrs) (pushed tag b)"
  let ?post = "js ''<![CDATA['' @ c @ js '']]>'' @ endTagOf tag @ rest"
  have tp: "tight ?post" by (simp add: tight_def literals charCodeAt_def char_classes)
  have pc: "parseContent ([] @ ?post) 0 ?bo = Inr (length ([] :: jsstring), ?bo)"
    using parseContent_markup [of "0x21" "0x5B # js ''CDATA['' @ c @ js '']]>'' @ endTagOf tag @ rest" ?bo]
    by (simp add: literals SLASH_def EXCLAM_def)
  have "mainLoop (render (CData tag attrs c) @ rest) 0 b = mainLoop ?post 0 ?bo"
    using mainLoop_content [OF t va CData.prems(2) pc tp] by simp
  also have "\<dots> = mainLoop (endTagOf tag @ rest) 0
      (setElt 0 (attrsProps attrs @ [(js ''$cdata'', Str c)]) (pushed tag b))"
    using nc tight_endTagOf by (rule mainLoop_cdata)
  also have "\<dots> = mainLoop rest 0
      (addChild tag (finishNode (attrsProps attrs @ [(js ''$cdata'', Str c)])) b)"
    using t CData.prems(2,3) by (rule mainLoop_closing)
  finally show ?case by (simp add: finishNode_cdata)
next
  case (Node tag attrs cs)
  then have t: "isName tag" and va: "validAttrs attrs" and ne: "cs \<noteq> []"
    and vc: "\<forall>c \<in> set cs. valid c"
    by simp_all
  let ?bo = "setElt 0 (attrsProps attrs) (pushed tag b)"
  let ?post = "concat (map render cs) @ endTagOf tag @ rest"
  let ?es = "map (\<lambda>c. (xtag c, shape c)) cs"
  from ne obtain c0 cs0 where cs: "cs = c0 # cs0" by (cases cs) auto
  with vc have v0: "valid c0" by simp
  from isName_Cons [OF valid_isName [OF v0]] obtain x xs where x: "xtag c0 = x # xs"
    and xs: "x \<noteq> SLASH" "x \<noteq> EXCLAM" by blast
  obtain u where u: "render c0 = 0x3C # x # u"
    using x by (cases c0) (simp_all add: openTag_def literals)
  have tp: "tight ?post" by (rule tight_concat_render [OF tight_endTagOf])
  have pc: "parseContent ([] @ ?post) 0 ?bo = Inr (length ([] :: jsstring), ?bo)"
    using parseContent_markup [of x "u @ concat (map render cs0) @ endTagOf tag @ rest" ?bo] xs
    by (simp add: cs u)
  have "mainLoop (render (Node tag attrs cs) @ rest) 0 b = mainLoop ?post 0 ?bo"
    using mainLoop_content [OF t va Node.prems(2) pc tp] by simp
  also have "\<dots> = mainLoop (endTagOf tag @ rest) 0
      (foldl (\<lambda>b c. addChild (xtag c) (shape c) b) ?bo cs)"
    using Node.IH vc accepts_attrs tight_endTagOf by (intro mainLoop_children) auto
  also have "foldl (\<lambda>b c. addChild (xtag c) (shape c) b) ?bo cs
      = setElt (length cs) (attrsProps attrs @ groupByTag ?es) (pushed tag b)"
  proof -
    have "\<forall>e \<in> set ?es. isNode (snd e) \<and> fst e \<notin> fst ` set (attrsProps attrs)"
      using vc attrsProps_keys [of attrs] isName_not_special valid_isName
      by (auto simp: isNode_shape)
    from foldl_putChild [OF this] show ?thesis by (simp add: foldl_addChild)
  qed
  also have "mainLoop (endTagOf tag @ rest) 0 (setElt (length cs) (attrsProps attrs @ groupByTag ?es) (pushed tag b))
      = mainLoop rest 0 (addChild tag (finishNode (attrsProps attrs @ groupByTag ?es)) b)"
    using t Node.prems(2,3) by (rule mainLoop_closing)
  also have "finishNode (attrsProps attrs @ groupByTag ?es) = Obj (attrsProps attrs @ groupByTag ?es)"
    using vc valid_isName by (intro finishNode_children) auto
  finally show ?case by simp
qed

lemma getResult_tree: "getResult (addChild tag node builder) = Inr (Obj [(tag, node)])"
  by (simp add: getResult_def addChild_def setElt_def builder_def newElement_def putChild_def
      getProp_def)

lemma parse_render: "valid d \<Longrightarrow> parse (render d) = Inr (tree d)"
proof -
  assume v: "valid d"
  from render_Cons [of d] have i: "indexOf [LT] (render d) 0 = Some 0"
    by (auto simp: indexOf_def LT_def)
  have "mainLoop (render d @ []) 0 builder = mainLoop [] 0 (addChild (xtag d) (shape d) builder)"
    using v accepts_builder tight_Nil by (rule mainLoop_render)
  then show ?thesis
    by (simp add: parse_def i mainLoop.simps [of "[]"] getResult_tree tree_def)
qed

subsection \<open>What stringify writes for the tree of a document\<close>

text \<open>
  The tree holds the children grouped by tag name, so \<open>stringify\<close> writes the
  occurrences of one name side by side: the text of the regrouped document.
\<close>

fun regroup :: "xml \<Rightarrow> xml" where
  "regroup (Node tag attrs cs) =
     Node tag attrs
       (concat (map (\<lambda>k. filter (\<lambda>c. xtag c = k) (map regroup cs)) (firstKeys (map xtag cs))))"
| "regroup (Empty tag attrs) = Empty tag attrs"
| "regroup (Text tag attrs v) = Text tag attrs v"
| "regroup (CData tag attrs c) = CData tag attrs c"

definition emit :: "jsstring \<Rightarrow> formatter \<Rightarrow> formatter" where
  "emit s f = f\<lparr>fmt_str := fmt_str f @ s\<rparr>"

lemma emit_emit [simp]: "emit s (emit t f) = emit (t @ s) f"
  by (simp add: emit_def)

lemma emit_Nil [simp]: "emit [] f = f"
  by (simp add: emit_def)

lemma xtag_regroup [simp]: "xtag (regroup d) = xtag d"
  by (cases d) simp_all

lemma addAttributes_attrs:
  "addAttributes (map (\<lambda>a. (fst a, Str (snd a))) attrs) f = emit (concat (map renderAttr attrs)) f"
  by (induction attrs arbitrary: f)
     (simp_all add: addAttribute_def renderAttr_def escape_def emit_def)

lemma attrs_of_attrsProps:
  assumes "getProp qs (js ''$'') = Undefined"
  shows "(if truthy (getProp (attrsProps attrs @ qs) (js ''$''))
          then ownProps (getProp (attrsProps attrs @ qs) (js ''$'')) else [])
         = map (\<lambda>a. (fst a, Str (snd a))) attrs"
proof (cases "attrs = []")
  case True
  then show ?thesis using assms by (simp add: attrsProps_def)
next
  case False
  then have "getProp (attrsProps attrs @ qs) (js ''$'') = Obj (map (\<lambda>a. (fst a, Str (snd a))) attrs)"
    by (simp add: attrsProps_def getProp_def)
  then show ?thesis by simp
qed

lemma begin_attrs:
  "addAttributes (map (\<lambda>a. (fst a, Str (snd a))) attrs) (beginTag None tag f)
     = (emit (openTag tag attrs) f)\<lparr>fmt_depth := fmt_depth f + 1\<rparr>"
  by (simp add: addAttributes_attrs) (simp add: beginTag_def indentOn_def emit_def openTag_def)

lemma attrs_plainText: "list_all (\<lambda>a. plainText (snd a)) (map (\<lambda>a. (fst a, Str (snd a))) attrs)"
  by (simp add: list_all_iff)

lemma isChildKey_special:
  "\<not> isChildKey (js ''$'')" "\<not> isChildKey (js ''$value'')" "\<not> isChildKey (js ''$cdata'')"
  by (simp_all add: isChildKey_def special_names)

lemma isChildKey_name: "isName k \<Longrightarrow> isChildKey k"
  by (auto dest!: isName_first simp: isChildKey_def special_names)

lemma childKeys_attrsProps [simp]: "filter isChildKey (map fst (attrsProps attrs)) = []"
  by (simp add: attrsProps_def isChildKey_special)

lemma getProp_Nil: "getProp [] q = Undefined"
  by (simp add: getProp_def)

lemma getProp_Cons: "getProp ((k, v) # ps) q = (if k = q then v else getProp ps q)"
  by (simp add: getProp_def)

lemmas dollar_neq = dollar_facts dollar_facts [symmetric]

lemma strfy_obj:
  assumes "getProp qs (js ''$'') = Undefined"
  shows "strfy None (Obj (attrsProps attrs @ qs)) tag f =
     (let fb = (emit (openTag tag attrs) f)\<lparr>fmt_depth := fmt_depth f + 1\<rparr>;
          keys = filter isChildKey (map fst qs);
          val = getProp qs (js ''$value'');
          cd = getProp qs (js ''$cdata'')
      in if val \<noteq> Undefined then
           (if length keys > 0 then Inl CannotMixValueAndChildrenS
            else if truthy cd then Inl CannotMixValueAndCdataS
            else if val = Null then
              Inr (endTag True (addAttribute (js ''xsi:nil'') (Str (js ''true'')) fb))
            else if \<not> plainText val then Inl OwnConversion
            else Inr (closeTag None tag val (endTag False fb)))
         else if notNull cd then
           (if length keys > 0 then Inl CannotMixCdataAndChildrenS
            else if \<not> plainText cd then Inl OwnConversion
            else Inr (closeTag None tag Undefined (fmt_cdata cd (endTag False fb))))
         else if length keys > 0 then
           (case strfyKeys None (attrsProps attrs @ qs) (endTag False fb) of
              Inl e \<Rightarrow> Inl e
            | Inr f' \<Rightarrow> Inr (closeTag None tag Undefined f'))
         else Inr (endTag True fb))"
  by (simp only: strfy.simps Let_def attrs_of_attrsProps [OF assms] begin_attrs attrs_plainText
      getProp_attrsProps(2) dollar_neq not_False_eq_True not_True_eq_False if_False
      map_append filter_append childKeys_attrsProps append_Nil)

lemma strfy_empty:
  "strfy None (Obj (attrsProps attrs)) tag f = Inr (emit (openTag tag attrs @ js ''/>'') f)"
  using strfy_obj [of "[]" attrs tag f]
  by (simp add: getProp_Nil endTag_def emit_def)

lemma strfy_text_plain:
  "strfy None (Str v) tag f = Inr (emit (openTag tag [] @ js ''>'' @ replaceEscape v @ endTagOf tag) f)"
  by (simp add: beginTag_def endTag_def closeTag_def indentOn_def emit_def openTag_def escape_def
      endTagOf_def)

lemma strfy_text_attrs:
  "strfy None (Obj (attrsProps attrs @ [(js ''$value'', Str v)])) tag f
     = Inr (emit (openTag tag attrs @ js ''>'' @ replaceEscape v @ endTagOf tag) f)"
  using strfy_obj [of "[(js ''$value'', Str v)]" attrs tag f]
  by (simp add: getProp_Nil getProp_Cons dollar_neq isChildKey_special endTag_def closeTag_def
      emit_def escape_def endTagOf_def)

lemma strfy_cdata:
  "strfy None (Obj (attrsProps attrs @ [(js ''$cdata'', Str c)])) tag f
     = Inr (emit (openTag tag attrs @ js ''>'' @ js ''<![CDATA['' @ c @ js '']]>'' @ endTagOf tag) f)"
  using strfy_obj [of "[(js ''$cdata'', Str c)]" attrs tag f]
  by (simp add: getProp_Nil getProp_Cons dollar_neq isChildKey_special endTag_def closeTag_def
      emit_def fmt_cdata_def indentOn_def endTagOf_def)


lemma strfyKeys_attrsProps: "strfyKeys None (attrsProps attrs @ qs) f = strfyKeys None qs f"
  by (simp add: attrsProps_def isChildKey_special)

lemma strfyEach_shapes:
  assumes "\<forall>c \<in> set occ. \<forall>f. strfy None (shape c) k f = Inr (emit (render (regroup c)) f)"
  shows "strfyEach None (map shape occ) k f = Inr (emit (concat (map (\<lambda>c. render (regroup c)) occ)) f)"
  using assms by (induction occ arbitrary: f) simp_all

lemma strfy_sequence:
  assumes "occ \<noteq> []"
    and "\<forall>c \<in> set occ. \<forall>f. strfy None (shape c) k f = Inr (emit (render (regroup c)) f)"
  shows "strfy None (sequenceOf (map shape occ)) k f
           = Inr (emit (concat (map (\<lambda>c. render (regroup c)) occ)) f)"
proof (cases occ)
  case Nil
  with assms(1) show ?thesis by simp
next
  case (Cons c occ')
  note o = this
  show ?thesis
  proof (cases occ')
    case Nil
    with o assms(2) show ?thesis by simp
  next
    case (Cons c' occ'')
    with o strfyEach_shapes [OF assms(2), of f] show ?thesis by simp
  qed
qed

lemma valuesAt_shapes:
  "valuesAt k (map (\<lambda>c. (xtag c, shape c)) cs) = map shape (filter (\<lambda>c. xtag c = k) cs)"
  by (simp add: valuesAt_def filter_map comp_def)

lemma strfyKeys_group:
  assumes "\<forall>c \<in> set cs. isName (xtag c)
      \<and> (\<forall>f. strfy None (shape c) (xtag c) f = Inr (emit (render (regroup c)) f))"
    and "set ks \<subseteq> xtag ` set cs"
  shows "strfyKeys None (map (\<lambda>k. (k, sequenceOf (valuesAt k (map (\<lambda>c. (xtag c, shape c)) cs)))) ks) f
     = Inr (emit (concat (map (\<lambda>k. concat (map (\<lambda>c. render (regroup c))
                                        (filter (\<lambda>c. xtag c = k) cs))) ks)) f)"
  using assms(2)
proof (induction ks arbitrary: f)
  case Nil
  show ?case by simp
next
  case (Cons k ks)
  from Cons.prems obtain c0 where c0: "c0 \<in> set cs" "xtag c0 = k" by auto
  with assms(1) have n: "isChildKey k" by (auto intro: isChildKey_name)
  from c0 have ne: "filter (\<lambda>c. xtag c = k) cs \<noteq> []" by (auto simp: filter_empty_conv)
  have "\<forall>c \<in> set (filter (\<lambda>c. xtag c = k) cs).
      \<forall>f. strfy None (shape c) k f = Inr (emit (render (regroup c)) f)"
    using assms(1) by auto
  from strfy_sequence [OF ne this]
  have s: "strfy None (sequenceOf (valuesAt k (map (\<lambda>c. (xtag c, shape c)) cs))) k f
      = Inr (emit (concat (map (\<lambda>c. render (regroup c)) (filter (\<lambda>c. xtag c = k) cs))) f)" for f
    by (simp add: valuesAt_shapes)
  from Cons.prems have "set ks \<subseteq> xtag ` set cs" by simp
  from Cons.IH [OF this] show ?case by (simp add: n s)
qed

lemma concat_map_concat:
  "concat (map g (concat (map h ks))) = concat (map (\<lambda>k. concat (map g (h k))) ks)"
  by (induction ks) simp_all

lemma filter_regroup:
  "filter (\<lambda>c. xtag c = k) (map regroup cs) = map regroup (filter (\<lambda>c. xtag c = k) cs)"
  by (simp add: filter_map comp_def)

lemma render_regroup_Node:
  "render (regroup (Node tag attrs cs)) = openTag tag attrs @ js ''>''
     @ concat (map (\<lambda>k. concat (map (\<lambda>c. render (regroup c)) (filter (\<lambda>c. xtag c = k) cs)))
         (firstKeys (map xtag cs)))
     @ endTagOf tag"
  by (simp add: concat_map_concat filter_regroup comp_def)

lemma group_keys: "map fst (groupByTag es) = firstKeys (map fst es)"
  by (simp add: groupByTag_def comp_def)

lemma strfy_shape:
  "valid d \<Longrightarrow> strfy None (shape d) (xtag d) f = Inr (emit (render (regroup d)) f)"
proof (induction d arbitrary: f)
  case (Empty tag attrs)
  show ?case by (simp add: strfy_empty del: strfy.simps)
next
  case (Text tag attrs v)
  show ?case by (simp add: strfy_text_plain strfy_text_attrs del: strfy.simps)
next
  case (CData tag attrs c)
  show ?case by (simp add: strfy_cdata del: strfy.simps)
next
  case (Node tag attrs cs)
  let ?es = "map (\<lambda>c. (xtag c, shape c)) cs"
  let ?ks = "firstKeys (map xtag cs)"
  from Node.prems have ne: "cs \<noteq> []" and vc: "\<forall>c \<in> set cs. valid c" by simp_all
  have nm: "\<forall>e \<in> set ?es. isName (fst e)" using vc valid_isName by auto
  have sp: "\<And>q. \<not> isChildKey q \<Longrightarrow> getProp (groupByTag ?es) q = Undefined"
  proof -
    fix q assume "\<not> isChildKey q"
    with nm isChildKey_name have "q \<notin> fst ` set ?es" by force
    then show "getProp (groupByTag ?es) q = Undefined"
      by (simp add: getProp_group valuesAt_empty [THEN iffD2])
  qed
  have ck: "filter isChildKey (map fst (groupByTag ?es)) = ?ks"
    using vc valid_isName isChildKey_name by (auto simp: group_keys comp_def filter_id_conv)
  have k0: "?ks \<noteq> []"
  proof
    assume "?ks = []"
    then have "set ?ks = {}" by simp
    with ne show False by simp
  qed
  have ih: "\<forall>c \<in> set cs. isName (xtag c)
      \<and> (\<forall>f. strfy None (shape c) (xtag c) f = Inr (emit (render (regroup c)) f))"
    using Node.IH vc valid_isName by auto
  have sk: "strfyKeys None (groupByTag ?es) f'
      = Inr (emit (concat (map (\<lambda>k. concat (map (\<lambda>c. render (regroup c))
                                     (filter (\<lambda>c. xtag c = k) cs))) ?ks)) f')" for f'
    unfolding groupByTag_def using strfyKeys_group [OF ih, of ?ks f'] by (simp add: comp_def)
  show ?case
    unfolding shape.simps xtag_regroup xml.sel render_regroup_Node
    by (simp add: strfy_obj [OF sp] isChildKey_special sp ck k0 strfyKeys_attrsProps sk
        endTag_def closeTag_def emit_def indentOn_def endTagOf_def del: strfy.simps)
qed

lemma stringify_tree:
  "valid d \<Longrightarrow> stringify (tree d) None = Inr (render (regroup d))"
proof -
  assume v: "valid d"
  obtain t where t: "render (regroup d) = 0x3C # t" using render_Cons by blast
  have "fmt_getResult (emit (render (regroup d)) formatter) = render (regroup d)"
    by (simp add: fmt_getResult_def emit_def formatter_def t indexOf_def LT_def)
  then show ?thesis
    by (simp add: stringify_def tree_def strfy_shape [OF v])
qed

subsection \<open>Regrouping a document\<close>

lemma regrouped_set:
  "set (concat (map (\<lambda>k. filter (\<lambda>c. f c = k) xs) (firstKeys (map f xs)))) = set xs"
  by auto

lemma valid_regroup: "valid d \<Longrightarrow> valid (regroup d)"
proof (induction d)
  case (Node tag attrs cs)
  let ?cs' = "concat (map (\<lambda>k. filter (\<lambda>c. xtag c = k) (map regroup cs)) (firstKeys (map xtag cs)))"
  have m: "map xtag cs = map xtag (map regroup cs)" by simp
  have s: "set ?cs' = regroup ` set cs"
    unfolding m using regrouped_set [of xtag "map regroup cs"] by simp
  from Node.prems have "cs \<noteq> []" by simp
  with s have "?cs' \<noteq> []" by (metis empty_is_image set_empty)
  with Node s show ?case by auto
qed simp_all

lemma firstKeys_Nil [simp]: "firstKeys [] = []"
  by (simp add: firstKeys_def)

lemma firstKeys_append:
  "firstKeys (xs @ ys) = firstKeys xs @ firstKeys (filter (\<lambda>y. y \<notin> set xs) ys)"
proof (induction ys rule: rev_induct)
  case Nil
  show ?case by simp
next
  case (snoc y ys)
  have "firstKeys (xs @ ys @ [y]) = firstKeys ((xs @ ys) @ [y])" by simp
  also have "\<dots> = (if y \<in> set (xs @ ys) then firstKeys (xs @ ys) else firstKeys (xs @ ys) @ [y])"
    by (rule firstKeys_snoc)
  finally show ?case using snoc by (auto simp: firstKeys_snoc)
qed

lemma firstKeys_same:
  "set b \<subseteq> {k} \<Longrightarrow> firstKeys b = (if b = [] then [] else [k])"
proof (induction b rule: rev_induct)
  case Nil
  show ?case by simp
next
  case (snoc x b)
  then have x: "x = k" and sb: "set b \<subseteq> {k}" by simp_all
  show ?case
  proof (cases "b = []")
    case True
    then show ?thesis using firstKeys_snoc [of "[]" x] by (simp add: x)
  next
    case False
    with sb have "k \<in> set b" by (cases b) auto
    with snoc.IH [OF sb] False show ?thesis by (simp add: firstKeys_snoc x)
  qed
qed

lemma firstKeys_block:
  assumes "b \<noteq> []" and "set b \<subseteq> {k}"
  shows "firstKeys b = [k]"
  using firstKeys_same [OF assms(2)] assms(1) by simp

lemma firstKeys_blocks:
  assumes "distinct ks" and "\<forall>k \<in> set ks. h k \<noteq> [] \<and> set (h k) \<subseteq> {k}"
  shows "firstKeys (concat (map h ks)) = ks"
  using assms
proof (induction ks)
  case Nil
  show ?case by (simp add: firstKeys_def)
next
  case (Cons k ks)
  from Cons.prems have b: "h k \<noteq> []" "set (h k) \<subseteq> {k}" by simp_all
  then have sk: "set (h k) = {k}" by (cases "h k") auto
  have "filter (\<lambda>y. y \<notin> set (h k)) (concat (map h ks)) = concat (map h ks)"
    using Cons.prems by (auto simp: sk filter_id_conv)
  with Cons firstKeys_block [OF b] show ?case by (simp add: firstKeys_append)
qed

lemma filter_blocks:
  assumes "distinct ks"
  shows "filter (\<lambda>e. f e = k) (concat (map (\<lambda>k'. filter (\<lambda>e. f e = k') es) ks))
           = (if k \<in> set ks then filter (\<lambda>e. f e = k) es else [])"
  using assms
proof (induction ks)
  case Nil
  show ?case by simp
next
  case (Cons k' ks)
  have "filter (\<lambda>e. f e = k) (filter (\<lambda>e. f e = k') es) = (if k = k' then filter (\<lambda>e. f e = k) es else [])"
    by (auto simp: filter_empty_conv intro: filter_cong)
  moreover have "k' \<in> set ks \<Longrightarrow> False" using Cons.prems by simp
  ultimately show ?case using Cons by auto
qed

lemma group_regrouped:
  "groupByTag (concat (map (\<lambda>k. filter (\<lambda>e. fst e = k) es) (firstKeys (map fst es)))) = groupByTag es"
proof -
  let ?ks = "firstKeys (map fst es)"
  let ?es' = "concat (map (\<lambda>k. filter (\<lambda>e. fst e = k) es) ?ks)"
  have "map fst ?es' = concat (map (\<lambda>k. map fst (filter (\<lambda>e. fst e = k) es)) ?ks)"
    by (simp add: map_concat comp_def)
  moreover have "firstKeys (concat (map (\<lambda>k. map fst (filter (\<lambda>e. fst e = k) es)) ?ks)) = ?ks"
    by (rule firstKeys_blocks) (auto simp: filter_empty_conv)
  ultimately have k: "firstKeys (map fst ?es') = ?ks" by simp
  have v: "valuesAt k ?es' = valuesAt k es" for k
    unfolding valuesAt_def
    by (simp add: filter_blocks) (auto simp: filter_empty_conv)
  show ?thesis unfolding groupByTag_def k by (simp add: v)
qed

lemma shape_regroup: "shape (regroup d) = shape d"
proof (induction d)
  case (Node tag attrs cs)
  let ?f = "\<lambda>c. (xtag c, shape c)"
  let ?ks = "firstKeys (map xtag cs)"
  have e: "map ?f (filter (\<lambda>c. xtag c = k) (map regroup cs)) = filter (\<lambda>e. fst e = k) (map ?f cs)" for k
    using Node.IH by (induction cs) auto
  have "map ?f (concat (map (\<lambda>k. filter (\<lambda>c. xtag c = k) (map regroup cs)) ?ks))
      = concat (map (\<lambda>k. filter (\<lambda>e. fst e = k) (map ?f cs)) (firstKeys (map fst (map ?f cs))))"
    by (simp add: map_concat comp_def e)
  then show ?case using group_regrouped [of "map ?f cs"] by simp
qed simp_all

lemma tree_regroup: "tree (regroup d) = tree d"
  by (simp add: tree_def shape_regroup)

lemma round_trip:
  assumes "valid d"
  shows "stringify (tree d) None = Inr (render (regroup d))"
    and "parse (render (regroup d)) = Inr (tree d)"
  using assms parse_render [OF valid_regroup [OF assms]]
  by (simp_all add: stringify_tree tree_regroup)

section \<open>Grouping by cardinality and the round trip\<close>

lemma sequenceOf_map:
  "sequenceOf (map f xs) = (case xs of [] \<Rightarrow> Undefined | [c] \<Rightarrow> f c | occ \<Rightarrow> Arr (map f occ))"
proof (cases xs)
  case Nil
  then show ?thesis by simp
next
  case (Cons a as)
  then show ?thesis by (cases as) simp_all
qed

lemma shape_lookup:
  assumes "isName k"
  shows "getProp (ownProps (shape (Node tag attrs cs))) k
     = (case filter (\<lambda>c. xtag c = k) cs of [] \<Rightarrow> Undefined | [c] \<Rightarrow> shape c
        | occ \<Rightarrow> Arr (map shape occ))"
proof -
  have "k \<noteq> js ''$''" using isName_not_special [OF assms] by simp
  then have "getProp (ownProps (shape (Node tag attrs cs))) k
      = sequenceOf (map shape (filter (\<lambda>c. xtag c = k) cs))"
    by (simp add: getProp_attrsProps getProp_group valuesAt_shapes)
  also have "\<dots> = (case filter (\<lambda>c. xtag c = k) cs of [] \<Rightarrow> Undefined | [c] \<Rightarrow> shape c
        | occ \<Rightarrow> Arr (map shape occ))"
    by (rule sequenceOf_map)
  finally show ?thesis .
qed

lemma shape_not_array: "\<not> isArray (shape d)"
  by (cases d) simp_all

text \<open>
  C4. The claim: under a given parent, the occurrences of a tag name become a bare node
  exactly when the name occurs once, and a sequence in document order exactly when it
  occurs two or more times; nothing but the cardinality enters the choice.
  \<open>builder.push\<close> decides with \<open>elt[tag] != null\<close> on a plain object, which is true
  at the first occurrence of a tag that is named like a property of
  \<open>Object.prototype\<close>: \<open>parse("<toString/>")\<close> is
  \<open>{toString: [<function toString>, {}]}\<close>, a sequence for a name that occurs once,
  with the inherited function as its first item, where \<open>parse("<a/>")\<close> is
  \<open>{a: {}}\<close>; and two occurrences of \<open>constructor\<close> give a sequence of three.
  \<open>stringify\<close> writes the function into the text.
\<close>

theorem parse_inherited_tag_name:
  "parse (js ''<toString/>'')
     = Inr (Obj [(js ''toString'', Arr [Fun (js ''toString''), Obj []])])
   \<and> parse (js ''<a/>'') = Inr (Obj [(js ''a'', Obj [])])
   \<and> parse (js ''<r><constructor>1</constructor><constructor>2</constructor></r>'')
     = Inr (Obj [(js ''r'', Obj [(js ''constructor'',
              Arr [Fun (js ''Object''), Str (js ''1''), Str (js ''2'')])])])
   \<and> stringify (Obj [(js ''toString'', Arr [Fun (js ''toString''), Obj []])]) None
     = Inr (js ''<toString>function toString() { [native code] }</toString><toString/>'')"
proof -
  have 1: "parse (js ''<toString/>'')
     = Inr (Obj [(js ''toString'', Arr [Fun (js ''toString''), Obj []])])" by code_simp
  have 2: "parse (js ''<a/>'') = Inr (Obj [(js ''a'', Obj [])])" by code_simp
  have 3: "parse (js ''<r><constructor>1</constructor><constructor>2</constructor></r>'')
     = Inr (Obj [(js ''r'', Obj [(js ''constructor'',
              Arr [Fun (js ''Object''), Str (js ''1''), Str (js ''2'')])])])" by code_simp
  have 4: "stringify (Obj [(js ''toString'', Arr [Fun (js ''toString''), Obj []])]) None
     = Inr (js ''<toString>function toString() { [native code] }</toString><toString/>'')"
    by code_simp
  from 1 2 3 4 show ?thesis by simp
qed

text \<open>
  What the names of \<open>Object.prototype\<close> do elsewhere: an attribute of such a name is
  refused as a duplicate, an entity of such a name is replaced by the text of the
  inherited value, the tag \<open>__proto__\<close> replaces the prototype of its parent, and the
  normalizer starts the entry of such a name with the inherited function and takes an
  undeclared prefix of such a name for a binding.
\<close>

lemma inherited_names_elsewhere:
  "parse (js ''<a constructor=\"1\"/>'') = Inl (DuplicateAttribute (js ''constructor''))"
  "parse (js ''<a>&constructor;</a>'')
     = Inr (Obj [(js ''a'', Str (js ''function Object() { [native code] }''))])"
  "parse (js ''<a>&__proto__;</a>'') = Inr (Obj [(js ''a'', Str (js ''[object Object]''))])"
  "parse (js ''<__proto__/>'') = Inl PrototypeReplaced"
  "normalizeNamespaces (Obj [(js ''constructor'', Str (js ''1''))])
     = Some (Obj [(js ''constructor'', Arr [Fun (js ''Object''), Str (js ''1'')])])"
  "normalizeNamespaces (Obj [(js ''constructor:a'', Str (js ''1''))])
     = Some (Obj [(js ''function Object() { [native code] }|a'', Str (js ''1''))])"
  "normalizeNamespaces (Obj [(js ''__proto__'', Str (js ''1''))]) = None"
  "normalizeNamespaces (Obj [(js ''$'', Obj [(js ''xmlns:p'', Obj [(js ''toString'', Str (js ''q''))])]),
                             (js ''p:a'', Str (js ''1''))]) = None"
  by code_simp+

text \<open>
  For all other names the rule holds. For every document \<open>d\<close> whose names are names of
  the scanner and no names of \<open>Object.prototype\<close>, with distinct attribute names per
  element and no \<open>]]>\<close> inside a CDATA section, \<open>parse\<close> returns on the text of
  \<open>d\<close> the tree \<open>{tag: shape d}\<close>, where \<open>shape\<close> is the tree the specification
  describes. In that tree, under every parent \<open>Node tag attrs cs\<close> and for every name
  \<open>k\<close>, the property \<open>k\<close> is absent when no child is named \<open>k\<close>, the bare node of
  the child when exactly one child is named \<open>k\<close>, and the array of the nodes of the
  children named \<open>k\<close>, in document order, when there are two or more; a node is never
  an array itself, so the two cases cannot be confused.
\<close>

theorem parse_groups_by_cardinality:
  assumes "valid d"
  shows "parse (render d) = Inr (Obj [(xtag d, shape d)])
     \<and> (\<forall>tag attrs cs k. isName k \<longrightarrow>
          getProp (ownProps (shape (Node tag attrs cs))) k
            = (case filter (\<lambda>c. xtag c = k) cs of [] \<Rightarrow> Undefined | [c] \<Rightarrow> shape c
               | occ \<Rightarrow> Arr (map shape occ)))
     \<and> (\<forall>c. \<not> isArray (shape c))"
  using parse_render [OF assms] shape_lookup shape_not_array by (simp add: tree_def)

theorem parse_groups_by_cardinality_witness:
  "valid (Node (js ''r'') [] [Text (js ''a'') [] (js ''1''), Empty (js ''b'') [],
                              Text (js ''a'') [] (js ''2'')])
   \<and> parse (js ''<r><a>1</a><b/><a>2</a></r>'')
       = Inr (Obj [(js ''r'', Obj [(js ''a'', Arr [Str (js ''1''), Str (js ''2'')]),
                                   (js ''b'', Obj [])])])"
proof -
  let ?d = "Node (js ''r'') [] [Text (js ''a'') [] (js ''1''), Empty (js ''b'') [],
                               Text (js ''a'') [] (js ''2'')]"
  have v: "valid ?d" by code_simp
  have r: "render ?d = js ''<r><a>1</a><b/><a>2</a></r>''" by code_simp
  have s: "shape ?d = Obj [(js ''a'', Arr [Str (js ''1''), Str (js ''2'')]), (js ''b'', Obj [])]"
    by code_simp
  from parse_groups_by_cardinality [OF v] have "parse (render ?d) = Inr (Obj [(xtag ?d, shape ?d)])"
    by blast
  then show ?thesis unfolding r s using v by simp
qed

text \<open>
  C1. The claim: for every text \<open>x\<close> that \<open>stringify\<close> produces with the default
  compact options, \<open>stringify(parse(x)) === x\<close>, without condition. \<open>stringify\<close>
  writes the content of \<open>$cdata\<close> as it is between \<open><![CDATA[\<close> and \<open>]]>\<close>, and
  \<open>parse\<close> ends a CDATA section at the first \<open>]]>\<close>. So
  \<open>stringify({a: {$cdata: "]]>"}})\<close> is \<open><a><![CDATA[]]>]]></a>\<close>, which \<open>parse\<close>
  rejects; and \<open>stringify({r: {a: {$cdata: "]]></a><b><!--"}, b: {$cdata: "-->text"}}})\<close>
  is a text that \<open>parse\<close> accepts, as \<open>{r: {a: {$cdata: ""}, b: "text]]>"}}\<close>, from
  which \<open>stringify\<close> produces another text.
\<close>

theorem stringify_cdata_end_counterexample:
  "stringify (Obj [(js ''a'', Obj [(js ''$cdata'', Str (js '']]>''))])]) None
     = Inr (js ''<a><![CDATA[]]>]]></a>'')
   \<and> parse (js ''<a><![CDATA[]]>]]></a>'') = Inl (Expected LT (Some 0x5D))
   \<and> stringify (Obj [(js ''r'', Obj [(js ''a'', Obj [(js ''$cdata'', Str (js '']]></a><b><!--''))]),
                                     (js ''b'', Obj [(js ''$cdata'', Str (js ''-->text''))])])]) None
     = Inr (js ''<r><a><![CDATA[]]></a><b><!--]]></a><b><![CDATA[-->text]]></b></r>'')
   \<and> parse (js ''<r><a><![CDATA[]]></a><b><!--]]></a><b><![CDATA[-->text]]></b></r>'')
     = Inr (Obj [(js ''r'', Obj [(js ''a'', Obj [(js ''$cdata'', Str [])]),
                                 (js ''b'', Str (js ''text]]>''))])])
   \<and> stringify (Obj [(js ''r'', Obj [(js ''a'', Obj [(js ''$cdata'', Str [])]),
                                     (js ''b'', Str (js ''text]]>''))])]) None
     = Inr (js ''<r><a><![CDATA[]]></a><b>text]]&gt;</b></r>'')
   \<and> js ''<r><a><![CDATA[]]></a><b>text]]&gt;</b></r>''
     \<noteq> js ''<r><a><![CDATA[]]></a><b><!--]]></a><b><![CDATA[-->text]]></b></r>''"
proof -
  have 1: "stringify (Obj [(js ''a'', Obj [(js ''$cdata'', Str (js '']]>''))])]) None
     = Inr (js ''<a><![CDATA[]]>]]></a>'')" by code_simp
  have 2: "parse (js ''<a><![CDATA[]]>]]></a>'') = Inl (Expected LT (Some 0x5D))" by code_simp
  have 3: "stringify (Obj [(js ''r'', Obj [(js ''a'', Obj [(js ''$cdata'', Str (js '']]></a><b><!--''))]),
                                     (js ''b'', Obj [(js ''$cdata'', Str (js ''-->text''))])])]) None
     = Inr (js ''<r><a><![CDATA[]]></a><b><!--]]></a><b><![CDATA[-->text]]></b></r>'')"
    by code_simp
  have 4: "parse (js ''<r><a><![CDATA[]]></a><b><!--]]></a><b><![CDATA[-->text]]></b></r>'')
     = Inr (Obj [(js ''r'', Obj [(js ''a'', Obj [(js ''$cdata'', Str [])]),
                                 (js ''b'', Str (js ''text]]>''))])])"
    by code_simp
  have 5: "stringify (Obj [(js ''r'', Obj [(js ''a'', Obj [(js ''$cdata'', Str [])]),
                                     (js ''b'', Str (js ''text]]>''))])]) None
     = Inr (js ''<r><a><![CDATA[]]></a><b>text]]&gt;</b></r>'')"
    by code_simp
  have 6: "js ''<r><a><![CDATA[]]></a><b>text]]&gt;</b></r>''
     \<noteq> js ''<r><a><![CDATA[]]></a><b><!--]]></a><b><![CDATA[-->text]]></b></r>''"
    by code_simp
  from 1 2 3 4 5 6 show ?thesis by blast
qed

text \<open>
  C1, amended. Let \<open>d\<close> be a document whose names are names of the scanner, with
  distinct attribute names per element and no \<open>]]>\<close> inside a CDATA section, and let
  \<open>tree d\<close> be what \<open>parse\<close> returns on \<open>render d\<close>, the compact text of
  \<open>d\<close>. Then \<open>stringify\<close> produces from \<open>tree d\<close>, with the default compact
  options, a text \<open>x\<close> that \<open>parse\<close> accepts and from whose tree \<open>stringify\<close>
  produces \<open>x\<close> again: \<open>stringify(parse(x)) === x\<close>.
\<close>

theorem stringify_parse_round_trip:
  assumes "valid d"
  shows "parse (render d) = Inr (tree d)
     \<and> (\<exists>x t. stringify (tree d) None = Inr x \<and> parse x = Inr t \<and> stringify t None = Inr x)"
  using parse_render [OF assms] round_trip [OF assms] by blast

theorem stringify_parse_round_trip_witness:
  "valid (Node (js ''r'') [(js ''id'', js ''1'')]
           [Text (js ''a'') [] (js ''p&q''), CData (js ''c'') [] (js ''x<y''),
            Text (js ''a'') [(js ''n'', js ''2'')] []])
   \<and> (\<exists>x t. stringify (Obj [(js ''r'', Obj [(js ''$'', Obj [(js ''id'', Str (js ''1''))]),
               (js ''a'', Arr [Str (js ''p&q''),
                               Obj [(js ''$'', Obj [(js ''n'', Str (js ''2''))]), (js ''$value'', Str [])]]),
               (js ''c'', Obj [(js ''$cdata'', Str (js ''x<y''))])])]) None = Inr x
         \<and> parse x = Inr t \<and> stringify t None = Inr x)"
proof -
  let ?d = "Node (js ''r'') [(js ''id'', js ''1'')]
           [Text (js ''a'') [] (js ''p&q''), CData (js ''c'') [] (js ''x<y''),
            Text (js ''a'') [(js ''n'', js ''2'')] []]"
  have v: "valid ?d" by code_simp
  have t: "tree ?d = Obj [(js ''r'', Obj [(js ''$'', Obj [(js ''id'', Str (js ''1''))]),
               (js ''a'', Arr [Str (js ''p&q''),
                               Obj [(js ''$'', Obj [(js ''n'', Str (js ''2''))]), (js ''$value'', Str [])]]),
               (js ''c'', Obj [(js ''$cdata'', Str (js ''x<y''))])])]"
    by code_simp
  from stringify_parse_round_trip [OF v] show ?thesis unfolding t using v by blast
qed

end
